theory Spec2Isabelle
  imports Complex_Main "HOL-Library.Extended_Nat" "HOL-Library.Word"
begin

section \<open>Python values and exceptions\<close>

text \<open>
  The payloads a caller can hand to the constructors of \<^verbatim>\<open>expressions.py\<close>: \<^verbatim>\<open>None\<close>,
  booleans, unbounded integers, floats (the 64 bits of a double; the module never computes
  with them) and text.
\<close>

datatype pyval = PNone | PBool bool | PInt int | PFloat "64 word" | PStr string

datatype py_type = NoneType | bool_t | int_t | float_t | str_t

fun type_of :: "pyval \<Rightarrow> py_type" where
  "type_of PNone = NoneType"
| "type_of (PBool _) = bool_t"
| "type_of (PInt _) = int_t"
| "type_of (PFloat _) = float_t"
| "type_of (PStr _) = str_t"

text \<open>In Python \<^verbatim>\<open>bool\<close> is a subclass of \<^verbatim>\<open>int\<close>; the other built-in types here are unrelated.\<close>

fun issubclass :: "py_type \<Rightarrow> py_type \<Rightarrow> bool" where
  "issubclass bool_t int_t = True"
| "issubclass c d = (c = d)"

text \<open>\<^verbatim>\<open>isinstance(value, (c1, ..., cn))\<close>\<close>

definition isinstance :: "pyval \<Rightarrow> py_type list \<Rightarrow> bool" where
  "isinstance v cs = list_ex (issubclass (type_of v)) cs"

datatype exn =
    TypeError
  | ValueError string
  | KeyError string
  | AttributeError
  | ZeroDivisionError
  | NotImplementedError
  | RecursionError

fun is_TypeError :: "exn \<Rightarrow> bool" where
  "is_TypeError TypeError = True"
| "is_TypeError _ = False"

fun is_ValueError :: "exn \<Rightarrow> bool" where
  "is_ValueError (ValueError _) = True"
| "is_ValueError _ = False"

section \<open>Expression objects\<close>

text \<open>
  An object's identity is its address in the store. The store is the list of the
  \<^verbatim>\<open>Expression\<close> objects allocated so far, a new object taking the next address. The
  concrete classes are \<^verbatim>\<open>Number\<close> and \<^verbatim>\<open>Symbol\<close> (subclasses of \<^verbatim>\<open>Terminal\<close>, holding
  \<^verbatim>\<open>value\<close>) and \<^verbatim>\<open>Add\<close>, \<^verbatim>\<open>Sub\<close>, \<^verbatim>\<open>Mul\<close>, \<^verbatim>\<open>Div\<close>, \<^verbatim>\<open>Pow\<close> (subclasses of
  \<^verbatim>\<open>Operator\<close>, holding the tuple \<^verbatim>\<open>operands\<close>). No class defines \<^verbatim>\<open>__eq__\<close> or
  \<^verbatim>\<open>__hash__\<close>, so a dictionary keyed by nodes is keyed by identity.
\<close>

type_synonym ref = nat

datatype terminal_cls = Number | Symbol

datatype operator_cls = Add | Sub | Mul | Div | Pow_op

datatype obj = Terminal terminal_cls pyval | Operator operator_cls "ref list"

type_synonym heap = "obj list"

definition deref :: "heap \<Rightarrow> ref \<Rightarrow> obj option" where
  "deref h r = (if r < length h then Some (h ! r) else None)"

fun operands :: "obj \<Rightarrow> ref list" where
  "operands (Terminal _ _) = []"
| "operands (Operator _ ops) = ops"

text \<open>The class attributes \<^verbatim>\<open>precedence\<close> and \<^verbatim>\<open>symbol\<close>; \<^verbatim>\<open>float('inf')\<close> is \<open>\<infinity>\<close>.\<close>

fun cls_precedence :: "operator_cls \<Rightarrow> enat" where
  "cls_precedence Add = 1"
| "cls_precedence Sub = 1"
| "cls_precedence Mul = 2"
| "cls_precedence Div = 2"
| "cls_precedence Pow_op = 3"

fun precedence :: "obj \<Rightarrow> enat" where
  "precedence (Terminal _ _) = \<infinity>"
| "precedence (Operator k _) = cls_precedence k"

fun symbol :: "operator_cls \<Rightarrow> string" where
  "symbol Add = ''+''"
| "symbol Sub = ''-''"
| "symbol Mul = ''*''"
| "symbol Div = ''/''"
| "symbol Pow_op = ''^''"

subsection \<open>Construction\<close>

text \<open>
  A constructor call either raises or returns the new object's address and the extended
  store.

  \<^verbatim>\<open>Number.__init__\<close> and \<^verbatim>\<open>Symbol.__init__\<close> check the payload and raise \<^verbatim>\<open>ValueError\<close>;
  otherwise \<^verbatim>\<open>Terminal.__init__\<close> stores the payload with an empty operand tuple.
\<close>

definition alloc :: "obj \<Rightarrow> heap \<Rightarrow> ref \<times> heap" where
  "alloc ob h = (length h, h @ [ob])"

definition Number_new :: "pyval \<Rightarrow> heap \<Rightarrow> exn + ref \<times> heap" where
  "Number_new v h =
     (if \<not> isinstance v [int_t, float_t]
      then Inl (ValueError ''Number value must be a numeric type.'')
      else Inr (alloc (Terminal Number v) h))"

definition Symbol_new :: "pyval \<Rightarrow> heap \<Rightarrow> exn + ref \<times> heap" where
  "Symbol_new v h =
     (if \<not> isinstance v [str_t]
      then Inl (ValueError ''Symbol value must be a string.'')
      else Inr (alloc (Terminal Symbol v) h))"

text \<open>
  The operator classes inherit \<^verbatim>\<open>Expression.__init__(self, operands=())\<close>, which takes at
  most one argument besides \<^verbatim>\<open>self\<close> and stores \<^verbatim>\<open>tuple(operands)\<close>. A positional argument
  is an expression or a tuple of expressions. An expression is not iterable, so
  \<^verbatim>\<open>tuple\<close> raises \<^verbatim>\<open>TypeError\<close> on it; two or more positional arguments do not bind to
  the one parameter, and the call raises \<^verbatim>\<open>TypeError\<close>.
\<close>

datatype arg = AExpr ref | ATuple "ref list"

fun Expression_init :: "arg list \<Rightarrow> exn + ref list" where
  "Expression_init [] = Inr []"
| "Expression_init [ATuple rs] = Inr rs"
| "Expression_init [AExpr r] = Inl TypeError"
| "Expression_init (a # b # args) = Inl TypeError"

definition Operator_new :: "operator_cls \<Rightarrow> arg list \<Rightarrow> heap \<Rightarrow> exn + ref \<times> heap" where
  "Operator_new k args h =
     (case Expression_init args of
        Inl e \<Rightarrow> Inl e
      | Inr ops \<Rightarrow> Inr (alloc (Operator k ops) h))"

text \<open>
  The arithmetic protocol. The other operand is a node or a raw value;
  \<^verbatim>\<open>other if isinstance(other, Expression) else Number(other)\<close> is evaluated first, then the
  operator class is called with two positional arguments.
\<close>

datatype operand = Node ref | Raw pyval

definition coerce :: "operand \<Rightarrow> heap \<Rightarrow> exn + ref \<times> heap" where
  "coerce other h = (case other of Node r \<Rightarrow> Inr (r, h) | Raw v \<Rightarrow> Number_new v h)"

text \<open>\<^verbatim>\<open>__add__\<close>, \<^verbatim>\<open>__sub__\<close>, \<^verbatim>\<open>__mul__\<close>, \<^verbatim>\<open>__truediv__\<close>, \<^verbatim>\<open>__pow__\<close>: \<^verbatim>\<open>K(self, coerced other)\<close>\<close>

definition binop :: "operator_cls \<Rightarrow> ref \<Rightarrow> operand \<Rightarrow> heap \<Rightarrow> exn + ref \<times> heap" where
  "binop k self other h =
     (case coerce other h of
        Inl e \<Rightarrow> Inl e
      | Inr (r, h') \<Rightarrow> Operator_new k [AExpr self, AExpr r] h')"

text \<open>\<^verbatim>\<open>__rsub__\<close>, \<^verbatim>\<open>__rtruediv__\<close>, \<^verbatim>\<open>__rpow__\<close>: \<^verbatim>\<open>K(Number(other), self)\<close>\<close>

definition rbinop_wrap :: "operator_cls \<Rightarrow> ref \<Rightarrow> pyval \<Rightarrow> heap \<Rightarrow> exn + ref \<times> heap" where
  "rbinop_wrap k self other h =
     (case Number_new other h of
        Inl e \<Rightarrow> Inl e
      | Inr (r, h') \<Rightarrow> Operator_new k [AExpr r, AExpr self] h')"

definition Expression_add :: "ref \<Rightarrow> operand \<Rightarrow> heap \<Rightarrow> exn + ref \<times> heap" where
  "Expression_add = binop Add"

text \<open>\<^verbatim>\<open>__radd__\<close> is \<^verbatim>\<open>self + other\<close>, with \<^verbatim>\<open>other\<close> the raw left operand.\<close>

definition Expression_radd :: "ref \<Rightarrow> pyval \<Rightarrow> heap \<Rightarrow> exn + ref \<times> heap" where
  "Expression_radd self other = Expression_add self (Raw other)"

definition Expression_sub :: "ref \<Rightarrow> operand \<Rightarrow> heap \<Rightarrow> exn + ref \<times> heap" where
  "Expression_sub = binop Sub"

definition Expression_rsub :: "ref \<Rightarrow> pyval \<Rightarrow> heap \<Rightarrow> exn + ref \<times> heap" where
  "Expression_rsub = rbinop_wrap Sub"

definition Expression_mul :: "ref \<Rightarrow> operand \<Rightarrow> heap \<Rightarrow> exn + ref \<times> heap" where
  "Expression_mul = binop Mul"

text \<open>\<^verbatim>\<open>__rmul__\<close> is \<^verbatim>\<open>self * other\<close>.\<close>

definition Expression_rmul :: "ref \<Rightarrow> pyval \<Rightarrow> heap \<Rightarrow> exn + ref \<times> heap" where
  "Expression_rmul self other = Expression_mul self (Raw other)"

definition Expression_truediv :: "ref \<Rightarrow> operand \<Rightarrow> heap \<Rightarrow> exn + ref \<times> heap" where
  "Expression_truediv = binop Div"

definition Expression_rtruediv :: "ref \<Rightarrow> pyval \<Rightarrow> heap \<Rightarrow> exn + ref \<times> heap" where
  "Expression_rtruediv = rbinop_wrap Div"

definition Expression_pow :: "ref \<Rightarrow> operand \<Rightarrow> heap \<Rightarrow> exn + ref \<times> heap" where
  "Expression_pow = binop Pow_op"

definition Expression_rpow :: "ref \<Rightarrow> pyval \<Rightarrow> heap \<Rightarrow> exn + ref \<times> heap" where
  "Expression_rpow = rbinop_wrap Pow_op"

section \<open>Rendering\<close>

text \<open>
  \<^verbatim>\<open>str\<close> of a payload. The decimal form of an integer is computed; the form of a float is
  the interpreter's and is taken as the parameter \<open>float_str\<close>.
\<close>

fun digit_char :: "nat \<Rightarrow> char" where
  "digit_char n = char_of (48 + n)"

fun str_nat :: "nat \<Rightarrow> string" where
  "str_nat n = (if n < 10 then [digit_char n] else str_nat (n div 10) @ [digit_char (n mod 10)])"

definition str_int :: "int \<Rightarrow> string" where
  "str_int i = (if i < 0 then ''-'' @ str_nat (nat (- i)) else str_nat (nat i))"

fun py_str :: "(64 word \<Rightarrow> string) \<Rightarrow> pyval \<Rightarrow> string" where
  "py_str float_str PNone = ''None''"
| "py_str float_str (PBool b) = (if b then ''True'' else ''False'')"
| "py_str float_str (PInt i) = str_int i"
| "py_str float_str (PFloat w) = float_str w"
| "py_str float_str (PStr s) = s"

text \<open>
  \<^verbatim>\<open>Terminal.__str__\<close> and \<^verbatim>\<open>Operator.__str__\<close>. The recursion is Python's own call
  stack: \<open>depth\<close> is the number of nested calls the interpreter still allows, and the
  call that exceeds it raises \<^verbatim>\<open>RecursionError\<close>. Unpacking \<^verbatim>\<open>left, right = self.operands\<close>
  raises \<^verbatim>\<open>ValueError\<close> unless there are exactly two operands; reading \<^verbatim>\<open>precedence\<close> of
  something that is not a node raises \<^verbatim>\<open>AttributeError\<close>.
\<close>

definition parenthesise :: "bool \<Rightarrow> string \<Rightarrow> string" where
  "parenthesise b s = (if b then ''('' @ s @ '')'' else s)"

fun str_child :: "(ref \<Rightarrow> exn + string) \<Rightarrow> heap \<Rightarrow> enat \<Rightarrow> ref \<Rightarrow> exn + string" where
  "str_child rec h p c =
     (case deref h c of
        None \<Rightarrow> Inl AttributeError
      | Some ob \<Rightarrow>
          (case rec c of
             Inl e \<Rightarrow> Inl e
           | Inr s \<Rightarrow> Inr (parenthesise (precedence ob < p) s)))"

fun str_expr :: "(64 word \<Rightarrow> string) \<Rightarrow> nat \<Rightarrow> heap \<Rightarrow> ref \<Rightarrow> exn + string" where
  "str_expr float_str 0 h r = Inl RecursionError"
| "str_expr float_str (Suc depth) h r =
     (case deref h r of
        None \<Rightarrow> Inl AttributeError
      | Some (Terminal c v) \<Rightarrow> Inr (py_str float_str v)
      | Some (Operator k ops) \<Rightarrow>
          (case ops of
             [left, right] \<Rightarrow>
               (case str_child (str_expr float_str depth h) h (cls_precedence k) left of
                  Inl e \<Rightarrow> Inl e
                | Inr left_str \<Rightarrow>
                    (case str_child (str_expr float_str depth h) h (cls_precedence k) right of
                       Inl e \<Rightarrow> Inl e
                     | Inr right_str \<Rightarrow>
                         Inr (left_str @ '' '' @ symbol k @ '' '' @ right_str)))
           | _ \<Rightarrow> Inl (ValueError ''unpack'')))"

section \<open>The postorder visitor\<close>

text \<open>
  The caller's function \<open>fn\<close> receives the node, the results of its operands and the
  keyword arguments. It may raise and it may have effects of its own, on a state \<open>'s\<close> that
  the visitor never looks at: it returns an exception or a result, and the new state.

  The loop of \<^verbatim>\<open>postvisitor\<close>: \<open>visited\<close> is the dictionary, \<open>stack\<close> the list whose last
  element is the top, \<open>result_stack\<close> the list the code appends to and never reads. A loop
  that does not end has the value \<open>None\<close>.
\<close>

type_synonym ('r, 'k, 's) visit_fn = "ref \<Rightarrow> 'r list \<Rightarrow> 'k \<Rightarrow> 's \<Rightarrow> (exn + 'r) \<times> 's"

partial_function (option) visit_loop ::
  "heap \<Rightarrow> ('r, 'k, 's) visit_fn \<Rightarrow> 'k \<Rightarrow> (ref \<rightharpoonup> 'r) \<Rightarrow> ref list \<Rightarrow> 'r list \<Rightarrow> 's
     \<Rightarrow> ((exn + (ref \<rightharpoonup> 'r)) \<times> 's) option"
where
  "visit_loop h fn kwargs visited stack result_stack s =
     (if stack = [] then Some (Inr visited, s)
      else
        let node = last stack; stack' = butlast stack in
        if visited node \<noteq> None then visit_loop h fn kwargs visited stack' result_stack s
        else
          (case deref h node of
             None \<Rightarrow> Some (Inl AttributeError, s)
           | Some ob \<Rightarrow>
               if list_all (\<lambda>c. visited c \<noteq> None) (operands ob)
               then
                 (case fn node (map (\<lambda>c. the (visited c)) (operands ob)) kwargs s of
                    (Inl e, s') \<Rightarrow> Some (Inl e, s')
                  | (Inr v, s') \<Rightarrow>
                      visit_loop h fn kwargs (visited(node \<mapsto> v)) stack' (result_stack @ [v]) s')
               else
                 visit_loop h fn kwargs visited
                   (stack' @ [node] @ filter (\<lambda>c. visited c = None) (rev (operands ob)))
                   result_stack s))"

definition postvisitor ::
  "heap \<Rightarrow> ref \<Rightarrow> ('r, 'k, 's) visit_fn \<Rightarrow> 'k \<Rightarrow> 's \<Rightarrow> ((exn + 'r) \<times> 's) option"
where
  "postvisitor h expr fn kwargs s =
     (case visit_loop h fn kwargs Map.empty [expr] [] s of
        None \<Rightarrow> None
      | Some (Inl e, s') \<Rightarrow> Some (Inl e, s')
      | Some (Inr visited, s') \<Rightarrow>
          (case visited expr of
             None \<Rightarrow> Some (Inl (KeyError ''expr''), s')
           | Some v \<Rightarrow> Some (Inr v, s')))"

declare visit_loop.simps [code]

subsection \<open>Node graphs\<close>

text \<open>
  A store is a closed acyclic graph when every operand of every object is an object of the
  store and lies strictly below it in some ranking of the addresses. The constructors
  only build such stores, ranked by address: the operands exist before the operator does.
\<close>

definition dag :: "heap \<Rightarrow> (ref \<Rightarrow> nat) \<Rightarrow> bool" where
  "dag h rank =
     list_all (\<lambda>n. list_all (\<lambda>c. c < length h \<and> rank c < rank n) (operands (h ! n)))
       [0..<length h]"

subsection \<open>Observing the calls of the combining function\<close>

text \<open>
  Modelled from the spec: the combining function of the sharing test, which "also
  increments an external counter once per invocation". The caller wraps its function so
  that every invocation is appended to a log kept in the caller's own state: the node, the
  positional arguments, the keyword arguments and the outcome.
\<close>

type_synonym ('r, 'k) call = "ref \<times> 'r list \<times> 'k \<times> (exn + 'r)"

definition outcome :: "('r, 'k) call \<Rightarrow> exn + 'r" where
  "outcome c = snd (snd (snd c))"

definition recorded :: "('r, 'k, 's) visit_fn \<Rightarrow> ('r, 'k, 's \<times> ('r, 'k) call list) visit_fn" where
  "recorded fn node args kwargs =
     (\<lambda>(s, calls). case fn node args kwargs s of
        (out, s') \<Rightarrow> (out, (s', calls @ [(node, args, kwargs, out)])))"

text \<open>The counter of a node: the number of invocations on it.\<close>

definition visit_count :: "ref \<Rightarrow> ('r, 'k) call list \<Rightarrow> nat" where
  "visit_count n calls = length (filter (\<lambda>c. fst c = n) calls)"

text \<open>The results that the successful calls of a log have produced, by node.\<close>

definition memo_of :: "('r, 'k) call list \<Rightarrow> ref \<rightharpoonup> 'r" where
  "memo_of calls =
     foldl (\<lambda>m c. case outcome c of Inl e \<Rightarrow> m | Inr v \<Rightarrow> m(fst c \<mapsto> v)) Map.empty calls"

text \<open>
  A log is in postorder when every call carries the keyword arguments of the traversal
  and, as positional arguments, the results that earlier calls of the log produced for the
  operands of its node, one for each operand, in the order of the operand tuple.
\<close>

definition postorder_log :: "heap \<Rightarrow> 'k \<Rightarrow> ('r, 'k) call list \<Rightarrow> bool" where
  "postorder_log h kwargs calls =
     (\<forall>i<length calls.
        case calls ! i of (node, args, kw, out) \<Rightarrow>
          kw = kwargs \<and>
          (case deref h node of
             None \<Rightarrow> False
           | Some ob \<Rightarrow>
               list_all (\<lambda>c. memo_of (take i calls) c \<noteq> None) (operands ob) \<and>
               args = map (\<lambda>c. the (memo_of (take i calls) c)) (operands ob)))"

subsection \<open>An evaluating combining function\<close>

text \<open>
  Modelled from the spec: the combining function of the evaluation tests, which "evaluates
  Add/Sub/Mul/Div/Pow arithmetically and returns literal values for NumberLiteral", and
  which looks a symbol up in the bindings it is given as keyword argument, raising
  \<^verbatim>\<open>KeyError\<close> for a symbol without a binding. The arithmetic is exact, on rationals;
  float literals and powers with a fractional exponent are outside it.
\<close>

fun arith :: "operator_cls \<Rightarrow> rat \<Rightarrow> rat \<Rightarrow> exn + rat" where
  "arith Add a b = Inr (a + b)"
| "arith Sub a b = Inr (a - b)"
| "arith Mul a b = Inr (a * b)"
| "arith Div a b = (if b = 0 then Inl ZeroDivisionError else Inr (a / b))"
| "arith Pow_op a b =
     (if of_int \<lfloor>b\<rfloor> \<noteq> b then Inl NotImplementedError
      else if 0 \<le> b then Inr (a ^ nat \<lfloor>b\<rfloor>)
      else if a = 0 then Inl ZeroDivisionError
      else Inr (1 / a ^ nat (- \<lfloor>b\<rfloor>)))"

fun literal :: "pyval \<Rightarrow> exn + rat" where
  "literal (PInt i) = Inr (of_int i)"
| "literal (PBool b) = Inr (if b then 1 else 0)"
| "literal _ = Inl NotImplementedError"

fun binding :: "(string \<rightharpoonup> rat) \<Rightarrow> pyval \<Rightarrow> exn + rat" where
  "binding symbol_map (PStr x) =
     (case symbol_map x of None \<Rightarrow> Inl (KeyError x) | Some v \<Rightarrow> Inr v)"
| "binding symbol_map _ = Inl TypeError"

definition evaluate :: "heap \<Rightarrow> (rat, string \<rightharpoonup> rat, 's) visit_fn" where
  "evaluate h node args symbol_map s =
     (case deref h node of
        None \<Rightarrow> (Inl AttributeError, s)
      | Some (Terminal Number v) \<Rightarrow> (literal v, s)
      | Some (Terminal Symbol v) \<Rightarrow> (binding symbol_map v, s)
      | Some (Operator k ops) \<Rightarrow>
          (case args of [a, b] \<Rightarrow> (arith k a b, s) | _ \<Rightarrow> (Inl TypeError, s)))"

subsection \<open>Example graphs\<close>

text \<open>
  The graphs of the examples, as the constructor calls \<^verbatim>\<open>K((left, right))\<close> leave them in
  an empty store.

  \<^verbatim>\<open>s = Add((Number(5), Number(1)))\<close>, then \<^verbatim>\<open>Mul((s, s))\<close>: the node at address 2 is
  both operands of the node at address 3.
\<close>

definition heap_shared :: heap where
  "heap_shared =
     [Terminal Number (PInt 5), Terminal Number (PInt 1), Operator Add [0, 1],
      Operator Mul [2, 2]]"

text \<open>The same product of two sums that are equal in structure and distinct as objects.\<close>

definition heap_unshared :: heap where
  "heap_unshared =
     [Terminal Number (PInt 5), Terminal Number (PInt 1), Operator Add [0, 1],
      Terminal Number (PInt 5), Terminal Number (PInt 1), Operator Add [3, 4],
      Operator Mul [2, 5]]"

text \<open>\<open>2 + 3 * 4\<close>: the sum is at address 4.\<close>

definition heap_sum :: heap where
  "heap_sum =
     [Terminal Number (PInt 2), Terminal Number (PInt 3), Terminal Number (PInt 4),
      Operator Mul [1, 2], Operator Add [0, 3]]"

text \<open>\<open>x + 1\<close>: the sum is at address 2.\<close>

definition heap_symbol :: heap where
  "heap_symbol =
     [Terminal Symbol (PStr ''x''), Terminal Number (PInt 1), Operator Add [0, 1]]"

text \<open>
  The symbols \<open>x\<close>, \<open>y\<close>, \<open>z\<close> at addresses 0, 1, 2; \<open>(x + y) * z\<close> at 4; \<open>x * y + z\<close> at 6;
  \<open>Pow(x, Pow(y, z))\<close> at 8; \<open>Pow(Pow(x, y), z)\<close> at 10.
\<close>

definition heap_render :: heap where
  "heap_render =
     [Terminal Symbol (PStr ''x''), Terminal Symbol (PStr ''y''), Terminal Symbol (PStr ''z''),
      Operator Add [0, 1], Operator Mul [3, 2],
      Operator Mul [0, 1], Operator Add [5, 2],
      Operator Pow_op [1, 2], Operator Pow_op [0, 7],
      Operator Pow_op [0, 1], Operator Pow_op [9, 2]]"

text \<open>
  The right-leaning chain \<^verbatim>\<open>expr = Number(c)\<close>, then \<open>n\<close> times
  \<^verbatim>\<open>expr = Add((Number(1), expr))\<close>: \<open>n\<close> nested \<^verbatim>\<open>Add\<close> nodes, each with the literal 1 on the
  left. The outermost node is at address \<open>2 * n\<close>.
\<close>

primrec chain_heap :: "int \<Rightarrow> nat \<Rightarrow> heap" where
  "chain_heap c 0 = [Terminal Number (PInt c)]"
| "chain_heap c (Suc n) =
     chain_heap c n @ [Terminal Number (PInt 1), Operator Add [2 * n + 1, 2 * n]]"

definition chain_root :: "nat \<Rightarrow> ref" where
  "chain_root n = 2 * n"

text \<open>The value of the node at address \<open>m\<close> of a chain over the literal \<open>c\<close>.\<close>

definition chain_value :: "int \<Rightarrow> nat \<Rightarrow> rat" where
  "chain_value c m = (if m = 0 then of_int c else if odd m then 1 else of_nat (m div 2) + of_int c)"

text \<open>A float rendering for stores that hold no float.\<close>

definition no_float_str :: "64 word \<Rightarrow> string" where
  "no_float_str w = []"

text \<open>Whether a constructor call raised an exception of a given kind.\<close>

fun raises :: "(exn \<Rightarrow> bool) \<Rightarrow> exn + 'a \<Rightarrow> bool" where
  "raises P (Inl e) = P e"
| "raises P (Inr _) = False"

section \<open>Properties of the visitor's loop\<close>

text \<open>
  A rule for what holds when the loop has returned: an invariant of the dictionary, the
  stack, the result list and the caller's state that each of the three branches of the
  loop body keeps gives the postcondition.
\<close>

lemma visit_loop_rule:
  assumes run: "visit_loop h fn kw V st rs s = Some res"
    and init: "I V st rs s"
    and skip: "\<And>V st node rs s. I V (st @ [node]) rs s \<Longrightarrow> V node \<noteq> None \<Longrightarrow> I V st rs s"
    and missing: "\<And>V st node rs s. I V (st @ [node]) rs s \<Longrightarrow> V node = None \<Longrightarrow>
        deref h node = None \<Longrightarrow> Q (Inl AttributeError, s)"
    and call_err: "\<And>V st node rs s ob e s'. I V (st @ [node]) rs s \<Longrightarrow> V node = None \<Longrightarrow>
        deref h node = Some ob \<Longrightarrow> list_all (\<lambda>c. V c \<noteq> None) (operands ob) \<Longrightarrow>
        fn node (map (\<lambda>c. the (V c)) (operands ob)) kw s = (Inl e, s') \<Longrightarrow> Q (Inl e, s')"
    and call_ok: "\<And>V st node rs s ob v s'. I V (st @ [node]) rs s \<Longrightarrow> V node = None \<Longrightarrow>
        deref h node = Some ob \<Longrightarrow> list_all (\<lambda>c. V c \<noteq> None) (operands ob) \<Longrightarrow>
        fn node (map (\<lambda>c. the (V c)) (operands ob)) kw s = (Inr v, s') \<Longrightarrow>
        I (V(node \<mapsto> v)) st (rs @ [v]) s'"
    and push: "\<And>V st node rs s ob. I V (st @ [node]) rs s \<Longrightarrow> V node = None \<Longrightarrow>
        deref h node = Some ob \<Longrightarrow> \<not> list_all (\<lambda>c. V c \<noteq> None) (operands ob) \<Longrightarrow>
        I V (st @ [node] @ filter (\<lambda>c. V c = None) (rev (operands ob))) rs s"
    and finish: "\<And>V rs s. I V [] rs s \<Longrightarrow> Q (Inr V, s)"
  shows "Q res"
proof -
  define P where "P = (\<lambda>h' fn' kw' V st rs s res.
      h' = h \<and> fn' = fn \<and> kw' = kw \<longrightarrow> I V st rs s \<longrightarrow> Q res)"
  have "P h fn kw V st rs s res"
  proof (rule visit_loop.raw_induct[where P = P, OF _ run], goal_cases)
    case (1 loop h' fn' kw' V st rs s res)
    show ?case unfolding P_def
    proof (intro impI, elim conjE)
      assume eq: "h' = h" "fn' = fn" "kw' = kw" and inv: "I V st rs s"
      show "Q res"
      proof (cases st rule: rev_cases)
        case Nil
        with 1(2) inv finish show ?thesis by auto
      next
        case (snoc st0 node)
        note st = snoc
        show ?thesis
        proof (cases "V node")
          case (Some v)
          with 1(2) st have "loop h' fn' kw' V st0 rs s = Some res" by simp
          moreover have "I V st0 rs s" using skip inv st Some by auto
          ultimately show ?thesis using 1(1) eq unfolding P_def by blast
        next
          case None
          note unvisited = None
          show ?thesis
          proof (cases "deref h node")
            case None
            with 1(2) st unvisited eq have "res = (Inl AttributeError, s)" by simp
            with missing inv st unvisited None show ?thesis by auto
          next
            case (Some ob)
            show ?thesis
            proof (cases "list_all (\<lambda>c. V c \<noteq> None) (operands ob)")
              case True
              show ?thesis
              proof (cases "fn node (map (\<lambda>c. the (V c)) (operands ob)) kw s")
                case (Pair out s')
                show ?thesis
                proof (cases out)
                  case (Inl e)
                  with 1(2) st unvisited eq Some True Pair have "res = (Inl e, s')" by simp
                  with call_err[of V st0 node rs s ob e s'] inv st unvisited Some True Pair Inl
                  show ?thesis by simp
                next
                  case (Inr v)
                  with 1(2) st unvisited eq Some True Pair
                  have "loop h' fn' kw' (V(node \<mapsto> v)) st0 (rs @ [v]) s' = Some res" by simp
                  moreover have "I (V(node \<mapsto> v)) st0 (rs @ [v]) s'"
                    using call_ok[of V st0 node rs s ob v s'] inv st unvisited Some True Pair Inr
                    by simp
                  ultimately show ?thesis using 1(1) eq unfolding P_def by blast
                qed
              qed
            next
              case False
              with 1(2) st unvisited eq Some
              have "loop h' fn' kw' V (st0 @ [node] @ filter (\<lambda>c. V c = None) (rev (operands ob))) rs s
                  = Some res" by simp
              moreover have "I V (st0 @ [node] @ filter (\<lambda>c. V c = None) (rev (operands ob))) rs s"
                using push[of V st0 node rs s ob] inv st unvisited Some False by simp
              ultimately show ?thesis using 1(1) eq unfolding P_def by blast
            qed
          qed
        qed
      qed
    qed
  qed
  with init show ?thesis unfolding P_def by blast
qed


lemma dagD:
  assumes "dag h rank" "deref h n = Some ob" "c \<in> set (operands ob)"
  shows "c < length h \<and> rank c < rank n"
  using assms by (auto simp: dag_def deref_def list_all_iff split: if_splits)

lemma visit_loop_pop:
  "visit_loop h fn kw V (st @ [node]) rs s =
     (if V node \<noteq> None then visit_loop h fn kw V st rs s
      else
        (case deref h node of
           None \<Rightarrow> Some (Inl AttributeError, s)
         | Some ob \<Rightarrow>
             if list_all (\<lambda>c. V c \<noteq> None) (operands ob)
             then
               (case fn node (map (\<lambda>c. the (V c)) (operands ob)) kw s of
                  (Inl e, s') \<Rightarrow> Some (Inl e, s')
                | (Inr v, s') \<Rightarrow> visit_loop h fn kw (V(node \<mapsto> v)) st (rs @ [v]) s')
             else
               visit_loop h fn kw V
                 ((st @ [node]) @ rev (filter (\<lambda>c. V c = None) (operands ob))) rs s))"
  by (subst visit_loop.simps) (simp add: rev_filter split: option.splits)

lemma visit_top:
  assumes d: "dag h rank" and n: "node < length h"
  shows "(\<exists>e s'. \<forall>st. visit_loop h fn kw V (st @ [node]) rs s = Some (Inl e, s')) \<or>
         (\<exists>V' rs' s'. (\<forall>st. visit_loop h fn kw V (st @ [node]) rs s = visit_loop h fn kw V' st rs' s')
            \<and> V' node \<noteq> None \<and> (\<forall>m. V m \<noteq> None \<longrightarrow> V' m \<noteq> None)
            \<and> (\<forall>m. V' m \<noteq> None \<longrightarrow> V m \<noteq> None \<or> rank m \<le> rank node))"
  using n
proof (induction "rank node" arbitrary: node V rs s rule: less_induct)
  case less
  define ob where "ob = h ! node"
  have ob: "deref h node = Some ob" using less.prems by (simp add: deref_def ob_def)
  show ?case
  proof (cases "V node")
    case (Some v)
    then have "\<forall>st. visit_loop h fn kw V (st @ [node]) rs s = visit_loop h fn kw V st rs s"
      by (simp add: visit_loop_pop)
    with Some show ?thesis by blast
  next
    case None
    txt \<open>the call of \<open>fn\<close> on a node whose operands are visited\<close>
    have ready: "(\<exists>e s'. \<forall>st. visit_loop h fn kw W (st @ [node]) rs1 s1 = Some (Inl e, s')) \<or>
         (\<exists>v rs' s'. (\<forall>st. visit_loop h fn kw W (st @ [node]) rs1 s1
              = visit_loop h fn kw (W(node \<mapsto> v)) st rs' s'))"
      if "W node = None" "list_all (\<lambda>c. W c \<noteq> None) (operands ob)" for W rs1 s1
    proof (cases "fn node (map (\<lambda>c. the (W c)) (operands ob)) kw s1")
      case (Pair out s')
      show ?thesis
      proof (cases out)
        case (Inl e)
        with Pair that ob have "\<forall>st. visit_loop h fn kw W (st @ [node]) rs1 s1 = Some (Inl e, s')"
          by (simp add: visit_loop_pop)
        then show ?thesis by blast
      next
        case (Inr v)
        with Pair that ob have "\<forall>st. visit_loop h fn kw W (st @ [node]) rs1 s1
              = visit_loop h fn kw (W(node \<mapsto> v)) st (rs1 @ [v]) s'"
          by (simp add: visit_loop_pop)
        then show ?thesis by blast
      qed
    qed
    txt \<open>the operands pushed above the node are visited one after the other\<close>
    have children: "(\<exists>e s'. \<forall>base. visit_loop h fn kw W (base @ rev cs) rs1 s1 = Some (Inl e, s')) \<or>
         (\<exists>V' rs' s'. (\<forall>base. visit_loop h fn kw W (base @ rev cs) rs1 s1
               = visit_loop h fn kw V' base rs' s')
            \<and> (\<forall>c\<in>set cs. V' c \<noteq> None) \<and> (\<forall>m. W m \<noteq> None \<longrightarrow> V' m \<noteq> None)
            \<and> (\<forall>m. V' m \<noteq> None \<longrightarrow> W m \<noteq> None \<or> rank m < rank node))"
      if "\<forall>c\<in>set cs. c < length h \<and> rank c < rank node" for cs W rs1 s1
      using that
    proof (induction cs arbitrary: W rs1 s1)
      case Nil
      show ?case
        by (rule disjI2, rule exI[of _ W], rule exI[of _ rs1], rule exI[of _ s1]) simp
    next
      case (Cons c cs)
      have c: "c < length h" "rank c < rank node" using Cons.prems by auto
      from less.hyps[OF c(2) c(1), of W rs1 s1]
      show ?case
      proof (elim disjE exE conjE)
        fix e s'
        assume "\<forall>st. visit_loop h fn kw W (st @ [c]) rs1 s1 = Some (Inl e, s')"
        then have "\<forall>base. visit_loop h fn kw W (base @ rev (c # cs)) rs1 s1 = Some (Inl e, s')"
          by (metis append_assoc rev.simps(2))
        then show ?thesis by blast
      next
        fix V1 rs2 s2
        assume first: "\<forall>st. visit_loop h fn kw W (st @ [c]) rs1 s1 = visit_loop h fn kw V1 st rs2 s2"
          and vc: "V1 c \<noteq> None" and mono1: "\<forall>m. W m \<noteq> None \<longrightarrow> V1 m \<noteq> None"
          and new1: "\<forall>m. V1 m \<noteq> None \<longrightarrow> W m \<noteq> None \<or> rank m \<le> rank c"
        have step: "visit_loop h fn kw W (base @ rev (c # cs)) rs1 s1
              = visit_loop h fn kw V1 (base @ rev cs) rs2 s2" for base
          using first by (metis append_assoc rev.simps(2))
        have rest: "\<forall>c\<in>set cs. c < length h \<and> rank c < rank node" using Cons.prems by auto
        from Cons.IH[OF rest, of V1 rs2 s2]
        show ?thesis
        proof (elim disjE exE conjE)
          fix e s'
          assume "\<forall>base. visit_loop h fn kw V1 (base @ rev cs) rs2 s2 = Some (Inl e, s')"
          with step have "\<forall>base. visit_loop h fn kw W (base @ rev (c # cs)) rs1 s1 = Some (Inl e, s')"
            by simp
          then show ?thesis by blast
        next
          fix V2 rs3 s3
          assume second: "\<forall>base. visit_loop h fn kw V1 (base @ rev cs) rs2 s2
                = visit_loop h fn kw V2 base rs3 s3"
            and vcs: "\<forall>c\<in>set cs. V2 c \<noteq> None" and mono2: "\<forall>m. V1 m \<noteq> None \<longrightarrow> V2 m \<noteq> None"
            and new2: "\<forall>m. V2 m \<noteq> None \<longrightarrow> V1 m \<noteq> None \<or> rank m < rank node"
          have "\<forall>base. visit_loop h fn kw W (base @ rev (c # cs)) rs1 s1
                = visit_loop h fn kw V2 base rs3 s3"
            using step second by simp
          moreover have "\<forall>c'\<in>set (c # cs). V2 c' \<noteq> None" using vc vcs mono2 by auto
          moreover have "\<forall>m. W m \<noteq> None \<longrightarrow> V2 m \<noteq> None" using mono1 mono2 by blast
          moreover have "\<forall>m. V2 m \<noteq> None \<longrightarrow> W m \<noteq> None \<or> rank m < rank node"
            using new1 new2 c(2) by (meson le_less_trans)
          ultimately show ?thesis by blast
        qed
      qed
    qed
    show ?thesis
    proof (cases "list_all (\<lambda>c. V c \<noteq> None) (operands ob)")
      case True
      from ready[OF None True, of rs s] show ?thesis
      proof (elim disjE exE)
        fix e s'
        assume "\<forall>st. visit_loop h fn kw V (st @ [node]) rs s = Some (Inl e, s')"
        then show ?thesis by blast
      next
        fix v rs' s'
        assume "\<forall>st. visit_loop h fn kw V (st @ [node]) rs s
              = visit_loop h fn kw (V(node \<mapsto> v)) st rs' s'"
        moreover have "(V(node \<mapsto> v)) node \<noteq> None" by simp
        moreover have "\<forall>m. V m \<noteq> None \<longrightarrow> (V(node \<mapsto> v)) m \<noteq> None" by simp
        moreover have "\<forall>m. (V(node \<mapsto> v)) m \<noteq> None \<longrightarrow> V m \<noteq> None \<or> rank m \<le> rank node" by simp
        ultimately show ?thesis by blast
      qed
    next
      case False
      define cs where "cs = filter (\<lambda>c. V c = None) (operands ob)"
      have push: "visit_loop h fn kw V (st @ [node]) rs s
            = visit_loop h fn kw V ((st @ [node]) @ rev cs) rs s" for st
        using None ob False by (simp add: visit_loop_pop cs_def)
      have below: "\<forall>c\<in>set cs. c < length h \<and> rank c < rank node"
        using dagD[OF d ob] by (auto simp: cs_def)
      from children[OF below, of V rs s] show ?thesis
      proof (elim disjE exE conjE)
        fix e s'
        assume err: "\<forall>base. visit_loop h fn kw V (base @ rev cs) rs s = Some (Inl e, s')"
        have "visit_loop h fn kw V (st @ [node]) rs s = Some (Inl e, s')" for st
          using push[of st] err[rule_format, of "st @ [node]"] by (rule trans)
        then show ?thesis by blast
      next
        fix V1 rs1 s1
        assume run: "\<forall>base. visit_loop h fn kw V (base @ rev cs) rs s
              = visit_loop h fn kw V1 base rs1 s1"
          and vcs: "\<forall>c\<in>set cs. V1 c \<noteq> None" and mono: "\<forall>m. V m \<noteq> None \<longrightarrow> V1 m \<noteq> None"
          and new: "\<forall>m. V1 m \<noteq> None \<longrightarrow> V m \<noteq> None \<or> rank m < rank node"
        have resume: "visit_loop h fn kw V (st @ [node]) rs s
              = visit_loop h fn kw V1 (st @ [node]) rs1 s1" for st
          using push[of st] run[rule_format, of "st @ [node]"] by (rule trans)
        have unv: "V1 node = None" using new None by auto
        have all: "list_all (\<lambda>c. V1 c \<noteq> None) (operands ob)"
          unfolding list_all_iff
        proof
          fix c assume "c \<in> set (operands ob)"
          then show "V1 c \<noteq> None" using vcs mono by (cases "V c = None") (auto simp: cs_def)
        qed
        from ready[OF unv all, of rs1 s1] show ?thesis
        proof (elim disjE exE)
          fix e s'
          assume "\<forall>st. visit_loop h fn kw V1 (st @ [node]) rs1 s1 = Some (Inl e, s')"
          with resume have "\<forall>st. visit_loop h fn kw V (st @ [node]) rs s = Some (Inl e, s')" by simp
          then show ?thesis by blast
        next
          fix v rs' s'
          assume "\<forall>st. visit_loop h fn kw V1 (st @ [node]) rs1 s1
                = visit_loop h fn kw (V1(node \<mapsto> v)) st rs' s'"
          with resume have "\<forall>st. visit_loop h fn kw V (st @ [node]) rs s
                = visit_loop h fn kw (V1(node \<mapsto> v)) st rs' s'" by simp
          moreover have "(V1(node \<mapsto> v)) node \<noteq> None" by simp
          moreover have "\<forall>m. V m \<noteq> None \<longrightarrow> (V1(node \<mapsto> v)) m \<noteq> None" using mono by simp
          moreover have "\<forall>m. (V1(node \<mapsto> v)) m \<noteq> None \<longrightarrow> V m \<noteq> None \<or> rank m \<le> rank node"
            using new by (auto simp: less_imp_le)
          ultimately show ?thesis by blast
        qed
      qed
    qed
  qed
qed

lemma visit_loop_empty: "visit_loop h fn kw V [] rs s = Some (Inr V, s)"
  by (subst visit_loop.simps) simp

lemma postvisitor_returns:
  assumes "dag h rank" "expr < length h"
  shows "\<exists>res. postvisitor h expr fn kw s = Some res"
proof -
  from visit_top[OF assms, of fn kw Map.empty "[]" s]
  show ?thesis
  proof (elim disjE exE conjE)
    fix e s'
    assume "\<forall>st. visit_loop h fn kw Map.empty (st @ [expr]) [] s = Some (Inl e, s')"
    then have "visit_loop h fn kw Map.empty [expr] [] s = Some (Inl e, s')"
      by (metis append_Nil)
    then show ?thesis by (simp add: postvisitor_def)
  next
    fix V' rs' s'
    assume "\<forall>st. visit_loop h fn kw Map.empty (st @ [expr]) [] s = visit_loop h fn kw V' st rs' s'"
    then have "visit_loop h fn kw Map.empty [expr] [] s = visit_loop h fn kw V' [] rs' s'"
      by (metis append_Nil)
    then show ?thesis by (simp add: postvisitor_def visit_loop_empty split: option.splits)
  qed
qed


subsection \<open>Runs with a recorded combining function\<close>

lemma memo_of_Nil: "memo_of [] = Map.empty"
  by (simp add: memo_of_def)

lemma memo_of_snoc:
  "memo_of (cs @ [(node, args, k, out)]) =
     (case out of Inl e \<Rightarrow> memo_of cs | Inr v \<Rightarrow> (memo_of cs)(node \<mapsto> v))"
  by (cases out) (simp_all add: memo_of_def outcome_def)

lemma postorder_log_Nil: "postorder_log h kw []"
  by (simp add: postorder_log_def)

lemma postorder_log_snoc:
  fixes cs :: "('r, 'k) call list"
  shows "postorder_log h kw (cs @ [(node, args, k, out)]) \<longleftrightarrow>
     postorder_log h kw cs \<and> k = kw \<and>
     (\<exists>ob. deref h node = Some ob \<and> list_all (\<lambda>c. memo_of cs c \<noteq> None) (operands ob) \<and>
        args = map (\<lambda>c. the (memo_of cs c)) (operands ob))"
proof -
  define E where "E = (\<lambda>(pre :: ('r, 'k) call list) (c :: ('r, 'k) call).
      case c of (node, args, k, out) \<Rightarrow>
        k = kw \<and>
        (case deref h node of
           None \<Rightarrow> False
         | Some ob \<Rightarrow>
             list_all (\<lambda>c. memo_of pre c \<noteq> None) (operands ob) \<and>
             args = map (\<lambda>c. the (memo_of pre c)) (operands ob)))"
  have unfold: "postorder_log h kw xs \<longleftrightarrow> (\<forall>i<length xs. E (take i xs) (xs ! i))" for xs
    by (simp add: postorder_log_def E_def)
  have old: "(cs @ [c]) ! i = cs ! i" "take i (cs @ [c]) = take i cs" if "i < length cs" for i c
    using that by (simp_all add: nth_append)
  have "(\<forall>i<length (cs @ [c]). E (take i (cs @ [c])) ((cs @ [c]) ! i)) \<longleftrightarrow>
        (\<forall>i<length cs. E (take i cs) (cs ! i)) \<and> E cs c" for c
    by (auto simp: less_Suc_eq old)
  moreover have "E cs (node, args, k, out) \<longleftrightarrow> k = kw \<and>
     (\<exists>ob. deref h node = Some ob \<and> list_all (\<lambda>c. memo_of cs c \<noteq> None) (operands ob) \<and>
        args = map (\<lambda>c. the (memo_of cs c)) (operands ob))"
    by (auto simp: E_def split: option.splits)
  ultimately show ?thesis unfolding unfold by blast
qed

lemma recorded_eq:
  "recorded fn node args kw (s, cs) = (out, sl) \<longleftrightarrow>
     (\<exists>s'. fn node args kw s = (out, s') \<and> sl = (s', cs @ [(node, args, kw, out)]))"
  by (auto simp: recorded_def split: prod.splits)

lemma recorded_loop:
  fixes fn :: "('r, 'k, 's) visit_fn"
  assumes run: "visit_loop h (recorded fn) kw Map.empty [expr] [] (s0, []) = Some (res, (s1, cs))"
  shows "distinct (map fst cs) \<and> postorder_log h kw cs \<and>
     (\<forall>i<length cs. \<forall>e. outcome (cs ! i) = Inl e \<longrightarrow> Suc i = length cs \<and> res = Inl e) \<and>
     (\<forall>V. res = Inr V \<longrightarrow> V = memo_of cs \<and> V expr \<noteq> None) \<and>
     ((\<forall>n<length h. \<forall>c\<in>set (operands (h ! n)). c < length h) \<and> expr < length h \<longrightarrow>
        (\<forall>e. res = Inl e \<longrightarrow> cs \<noteq> [] \<and> outcome (last cs) = Inl e))"
proof -
  define cl where "cl \<longleftrightarrow> (\<forall>n<length h. \<forall>c\<in>set (operands (h ! n)). c < length h) \<and> expr < length h"
  define I where "I = (\<lambda>V st (rs :: 'r list) (sl :: 's \<times> ('r, 'k) call list).
      V = memo_of (snd sl) \<and> distinct (map fst (snd sl)) \<and> postorder_log h kw (snd sl) \<and>
      (\<forall>c\<in>set (snd sl). \<exists>v. outcome c = Inr v) \<and>
      (\<forall>n. V n \<noteq> None \<longleftrightarrow> n \<in> fst ` set (snd sl)) \<and>
      (expr \<in> set st \<or> V expr \<noteq> None) \<and>
      (cl \<longrightarrow> (\<forall>n\<in>set st. n < length h)))"
  define Q where "Q = (\<lambda>r :: (exn + (ref \<rightharpoonup> 'r)) \<times> 's \<times> ('r, 'k) call list.
      distinct (map fst (snd (snd r))) \<and> postorder_log h kw (snd (snd r)) \<and>
      (\<forall>i<length (snd (snd r)). \<forall>e. outcome (snd (snd r) ! i) = Inl e \<longrightarrow>
          Suc i = length (snd (snd r)) \<and> fst r = Inl e) \<and>
      (\<forall>V. fst r = Inr V \<longrightarrow> V = memo_of (snd (snd r)) \<and> V expr \<noteq> None) \<and>
      (cl \<longrightarrow> (\<forall>e. fst r = Inl e \<longrightarrow> snd (snd r) \<noteq> [] \<and> outcome (last (snd (snd r))) = Inl e)))"
  have noerr: "outcome (cs' ! i) \<noteq> Inl e"
    if "\<forall>c\<in>set cs'. \<exists>v. outcome c = Inr v" "i < length cs'"
    for cs' :: "('r, 'k) call list" and i e
    using that by (metis nth_mem sum.distinct(1))
  have "Q (res, (s1, cs))"
  proof (rule visit_loop_rule[where I = I and Q = Q, OF run], goal_cases)
    case 1
    show ?case by (simp add: I_def memo_of_Nil postorder_log_Nil cl_def)
  next
    case (2 V st node rs sl)
    then show ?case by (auto simp: I_def)
  next
    case (3 V st node rs sl)
    then have "\<not> cl" by (auto simp: I_def deref_def split: if_splits)
    moreover have "distinct (map fst (snd sl))" "postorder_log h kw (snd sl)"
      "\<forall>c\<in>set (snd sl). \<exists>v. outcome c = Inr v"
      using 3(1) unfolding I_def by blast+
    ultimately show ?case
      unfolding Q_def fst_conv snd_conv using noerr[of "snd sl"] by blast
  next
    case (4 V st node rs sl ob e sl')
    obtain s cs0 where sl: "sl = (s, cs0)" by (cases sl)
    define c where "c = (node, map (\<lambda>c. the (V c)) (operands ob), kw, (Inl e :: exn + 'r))"
    from 4(5) obtain s' where sl': "sl' = (s', cs0 @ [c])"
      unfolding sl recorded_eq c_def by blast
    have inv: "V = memo_of cs0" "distinct (map fst cs0)" "postorder_log h kw cs0"
      "\<forall>c\<in>set cs0. \<exists>v. outcome c = Inr v" "\<forall>n. V n \<noteq> None \<longleftrightarrow> n \<in> fst ` set cs0"
      using 4(1) unfolding I_def sl snd_conv by blast+
    have fresh: "node \<notin> fst ` set cs0" using inv(5) 4(2) by blast
    have q1: "distinct (map fst (cs0 @ [c]))" using inv(2) fresh by (simp add: c_def)
    have q2: "postorder_log h kw (cs0 @ [c])"
      unfolding c_def postorder_log_snoc using inv(1,3) 4(3,4) by simp
    have "\<forall>i<length cs0. \<forall>e'. outcome (cs0 ! i) \<noteq> Inl e'"
      using noerr[OF inv(4)] by blast
    then have q3: "\<forall>i<length (cs0 @ [c]). \<forall>e'. outcome ((cs0 @ [c]) ! i) = Inl e' \<longrightarrow>
          Suc i = length (cs0 @ [c]) \<and> (Inl e :: exn + (ref \<rightharpoonup> 'r)) = Inl e'"
      by (auto simp: less_Suc_eq nth_append outcome_def c_def)
    have q5: "cs0 @ [c] \<noteq> [] \<and> outcome (last (cs0 @ [c])) = Inl e"
      by (simp add: outcome_def c_def)
    show ?case
      unfolding Q_def sl' fst_conv snd_conv using q1 q2 q3 q5 by blast
  next
    case (5 V st node rs sl ob v sl')
    obtain s cs0 where sl: "sl = (s, cs0)" by (cases sl)
    define c where "c = (node, map (\<lambda>c. the (V c)) (operands ob), kw, (Inr v :: exn + 'r))"
    from 5(5) obtain s' where sl': "sl' = (s', cs0 @ [c])"
      unfolding sl recorded_eq c_def by blast
    have inv: "V = memo_of cs0" "distinct (map fst cs0)" "postorder_log h kw cs0"
      "\<forall>c\<in>set cs0. \<exists>v. outcome c = Inr v" "\<forall>n. V n \<noteq> None \<longleftrightarrow> n \<in> fst ` set cs0"
      "expr \<in> set (st @ [node]) \<or> V expr \<noteq> None" "cl \<longrightarrow> (\<forall>n\<in>set (st @ [node]). n < length h)"
      using 5(1) unfolding I_def sl snd_conv by blast+
    have fresh: "node \<notin> fst ` set cs0" using inv(5) 5(2) by blast
    have i1: "V(node \<mapsto> v) = memo_of (cs0 @ [c])"
      unfolding c_def memo_of_snoc using inv(1) by simp
    have i2: "distinct (map fst (cs0 @ [c]))" using inv(2) fresh by (simp add: c_def)
    have i3: "postorder_log h kw (cs0 @ [c])"
      unfolding c_def postorder_log_snoc using inv(1,3) 5(3,4) by simp
    have i4: "\<forall>c'\<in>set (cs0 @ [c]). \<exists>v. outcome c' = Inr v"
      using inv(4) by (simp add: c_def outcome_def)
    have i5: "\<forall>n. (V(node \<mapsto> v)) n \<noteq> None \<longleftrightarrow> n \<in> fst ` set (cs0 @ [c])"
      using inv(5) by (auto simp: c_def)
    have i6: "expr \<in> set st \<or> (V(node \<mapsto> v)) expr \<noteq> None" using inv(6) by auto
    have i7: "cl \<longrightarrow> (\<forall>n\<in>set st. n < length h)" using inv(7) by simp
    show ?case
      unfolding I_def sl' snd_conv using i1 i2 i3 i4 i5 i6 i7 by blast
  next
    case (6 V st node rs sl ob)
    have "\<forall>c\<in>set (operands ob). c < length h" if cl
      using that 6(3) by (auto simp: cl_def deref_def split: if_splits)
    with 6(1) show ?case by (auto simp: I_def)
  next
    case (7 V rs sl)
    then have "V = memo_of (snd sl)" "distinct (map fst (snd sl))" "postorder_log h kw (snd sl)"
      "\<forall>c\<in>set (snd sl). \<exists>v. outcome c = Inr v"
      unfolding I_def by blast+
    moreover have "V expr \<noteq> None" using 7 unfolding I_def by auto
    ultimately show ?case
      unfolding Q_def fst_conv snd_conv using noerr[of "snd sl"] by blast
  qed
  then show ?thesis by (simp add: Q_def cl_def)
qed

lemma memo_of_SomeD:
  "memo_of cs n = Some v \<Longrightarrow> \<exists>args k. (n, args, k, Inr v) \<in> set cs"
proof (induction cs rule: rev_induct)
  case Nil
  then show ?case by (simp add: memo_of_Nil)
next
  case (snoc c cs)
  obtain node args k out where c: "c = (node, args, k, out)" by (cases c)
  show ?case
  proof (cases out)
    case (Inl e)
    with snoc c show ?thesis by (auto simp: memo_of_snoc)
  next
    case (Inr w)
    with snoc c show ?thesis by (auto simp: memo_of_snoc split: if_splits)
  qed
qed

lemma recorded_postvisitor:
  fixes fn :: "('r, 'k, 's) visit_fn"
  assumes run: "postvisitor h expr (recorded fn) kw (s0, []) = Some (out, (s1, cs))"
  shows "distinct (map fst cs)"
    and "postorder_log h kw cs"
    and "\<forall>i<length cs. \<forall>e. outcome (cs ! i) = Inl e \<longrightarrow> Suc i = length cs \<and> out = Inl e"
    and "\<forall>v. out = Inr v \<longrightarrow> memo_of cs expr = Some v"
    and "(\<forall>n<length h. \<forall>c\<in>set (operands (h ! n)). c < length h) \<and> expr < length h \<longrightarrow>
        (\<forall>e. out = Inl e \<longrightarrow> cs \<noteq> [] \<and> outcome (last cs) = Inl e)"
proof -
  from run obtain res where loop:
    "visit_loop h (recorded fn) kw Map.empty [expr] [] (s0, []) = Some (res, (s1, cs))"
    and out: "out = (case res of Inl e \<Rightarrow> Inl e
        | Inr V \<Rightarrow> (case V expr of None \<Rightarrow> Inl (KeyError ''expr'') | Some v \<Rightarrow> Inr v))"
    by (auto simp: postvisitor_def split: option.splits sum.splits)
  note facts = recorded_loop[OF loop]
  show "distinct (map fst cs)" "postorder_log h kw cs" using facts by blast+
  show "\<forall>i<length cs. \<forall>e. outcome (cs ! i) = Inl e \<longrightarrow> Suc i = length cs \<and> out = Inl e"
    using facts out by (cases res) auto
  show "\<forall>v. out = Inr v \<longrightarrow> memo_of cs expr = Some v"
    using facts out by (cases res) auto
  show "(\<forall>n<length h. \<forall>c\<in>set (operands (h ! n)). c < length h) \<and> expr < length h \<longrightarrow>
        (\<forall>e. out = Inl e \<longrightarrow> cs \<noteq> [] \<and> outcome (last cs) = Inl e)"
    using facts out by (cases res) auto
qed

lemma recorded_plain_loop:
  fixes fn :: "('r, 'k, 's) visit_fn"
  assumes run: "visit_loop h (recorded fn) kw V st rs (s, cs0) = Some (res, (s1, cs))"
  shows "visit_loop h fn kw V st rs s = Some (res, s1)"
proof -
  define I where "I = (\<lambda>W st' (rs' :: 'r list) (sl :: 's \<times> ('r, 'k) call list).
      visit_loop h fn kw W st' rs' (fst sl) = visit_loop h fn kw V st rs s)"
  define Q where "Q = (\<lambda>r :: (exn + (ref \<rightharpoonup> 'r)) \<times> 's \<times> ('r, 'k) call list.
      visit_loop h fn kw V st rs s = Some (fst r, fst (snd r)))"
  have "Q (res, (s1, cs))"
  proof (rule visit_loop_rule[where I = I and Q = Q, OF run], goal_cases)
    case 1
    show ?case by (simp add: I_def)
  next
    case (2 W st' node rs' sl)
    then show ?case by (simp add: I_def visit_loop_pop)
  next
    case (3 W st' node rs' sl)
    then show ?case by (simp add: I_def Q_def visit_loop_pop)
  next
    case (4 W st' node rs' sl ob e sl')
    then have "fn node (map (\<lambda>c. the (W c)) (operands ob)) kw (fst sl) = (Inl e, fst sl')"
      by (cases sl) (auto simp: recorded_eq)
    with 4(1-4) show ?case by (simp add: I_def Q_def visit_loop_pop)
  next
    case (5 W st' node rs' sl ob v sl')
    then have "fn node (map (\<lambda>c. the (W c)) (operands ob)) kw (fst sl) = (Inr v, fst sl')"
      by (cases sl) (auto simp: recorded_eq)
    with 5(1-4) show ?case by (simp add: I_def visit_loop_pop)
  next
    case (6 W st' node rs' sl ob)
    then show ?case by (simp add: I_def visit_loop_pop rev_filter)
  next
    case (7 W rs' sl)
    then show ?case by (simp add: I_def Q_def visit_loop_empty)
  qed
  then show ?thesis by (simp add: Q_def)
qed

lemma recorded_plain:
  assumes "postvisitor h expr (recorded fn) kw (s, cs0) = Some (out, (s1, cs))"
  shows "postvisitor h expr fn kw s = Some (out, s1)"
proof -
  from assms obtain res where
    loop: "visit_loop h (recorded fn) kw Map.empty [expr] [] (s, cs0) = Some (res, (s1, cs))"
    and out: "Some (out, (s1, cs)) = (case res of Inl e \<Rightarrow> Some (Inl e, (s1, cs))
        | Inr V \<Rightarrow> (case V expr of None \<Rightarrow> Some (Inl (KeyError ''expr''), (s1, cs))
                    | Some v \<Rightarrow> Some (Inr v, (s1, cs))))"
    by (auto simp: postvisitor_def split: option.splits sum.splits)
  from recorded_plain_loop[OF loop] out show ?thesis
    by (auto simp: postvisitor_def split: option.splits sum.splits)
qed

subsection \<open>Runs of a combining function that keeps the caller's state\<close>

text \<open>
  When the function, given results that satisfy \<open>R\<close> for the operands of a node, returns a
  result that satisfies \<open>R\<close> for the node, the dictionary only ever holds such results, and
  so does the value returned for the root.
\<close>

lemma visit_loop_values:
  fixes fn :: "('a, 'b, 'c) visit_fn"
  assumes run: "visit_loop h fn kw Map.empty [expr] [] s = Some (res, s1)"
    and cl: "\<forall>n<length h. \<forall>c\<in>set (operands (h ! n)). c < length h" "expr < length h"
    and step: "\<And>n args. n < length h \<Longrightarrow> list_all2 R (operands (h ! n)) args \<Longrightarrow>
        \<exists>v. fn n args kw s = (Inr v, s) \<and> R n v"
  shows "\<exists>V v. res = Inr V \<and> V expr = Some v \<and> R expr v \<and> s1 = s"
proof -
  define I where "I = (\<lambda>V st (rs :: 'a list) s'.
      (\<forall>n v. V n = Some v \<longrightarrow> R n v) \<and> (expr \<in> set st \<or> V expr \<noteq> None) \<and>
      (\<forall>n\<in>set st. n < length h) \<and> s' = s)"
  define Q where "Q = (\<lambda>r :: (exn + (ref \<rightharpoonup> 'a)) \<times> 'c.
      \<exists>V v. fst r = Inr V \<and> V expr = Some v \<and> R expr v \<and> snd r = s)"
  have args: "list_all2 R ops (map (\<lambda>c. the (V c)) ops)"
    if "\<forall>n v. V n = Some v \<longrightarrow> R n v" "list_all (\<lambda>c. V c \<noteq> None) ops" for V ops
    using that by (induction ops) auto
  have "Q (res, s1)"
  proof (rule visit_loop_rule[where I = I and Q = Q, OF run], goal_cases)
    case 1
    show ?case using cl(2) by (simp add: I_def)
  next
    case (2 V st node rs s')
    then show ?case by (auto simp: I_def)
  next
    case (3 V st node rs s')
    then show ?case by (auto simp: I_def deref_def split: if_splits)
  next
    case (4 V st node rs s' ob e s'')
    then have n: "node < length h" "ob = h ! node" "s' = s" "\<forall>n v. V n = Some v \<longrightarrow> R n v"
      by (auto simp: I_def deref_def split: if_splits)
    have "list_all2 R (operands (h ! node)) (map (\<lambda>c. the (V c)) (operands (h ! node)))"
      using args[OF n(4)] 4(4) n(2) by simp
    from step[OF n(1) this] 4(5) n(2,3) show ?case by auto
  next
    case (5 V st node rs s' ob v s'')
    then have n: "node < length h" "ob = h ! node" "s' = s" "\<forall>n v. V n = Some v \<longrightarrow> R n v"
      by (auto simp: I_def deref_def split: if_splits)
    have "list_all2 R (operands (h ! node)) (map (\<lambda>c. the (V c)) (operands (h ! node)))"
      using args[OF n(4)] 5(4) n(2) by simp
    from step[OF n(1) this] 5(5) n(2,3)
    have "R node v" "s'' = s" by auto
    with 5(1) show ?case by (auto simp: I_def)
  next
    case (6 V st node rs s' ob)
    then have "node < length h" "ob = h ! node"
      by (auto simp: I_def deref_def split: if_splits)
    with cl(1) have "\<forall>c\<in>set (operands ob). c < length h" by blast
    with 6(1) show ?case by (auto simp: I_def)
  next
    case (7 V rs s')
    then show ?case by (auto simp: I_def Q_def)
  qed
  then show ?thesis by (simp add: Q_def)
qed

section \<open>Construction of terminals\<close>

lemma isinstance_numeric:
  "isinstance v [int_t, float_t] \<longleftrightarrow> (\<exists>b. v = PBool b) \<or> (\<exists>i. v = PInt i) \<or> (\<exists>w. v = PFloat w)"
  by (cases v) (simp_all add: isinstance_def)

lemma isinstance_text: "isinstance v [str_t] \<longleftrightarrow> (\<exists>t. v = PStr t)"
  by (cases v) (simp_all add: isinstance_def)

text \<open>
  \<^bold>\<open>C4\<close>, as the code has it. A payload that is not an \<^verbatim>\<open>int\<close> or a \<^verbatim>\<open>float\<close> given to
  \<^verbatim>\<open>Number\<close>, and a payload that is not a \<^verbatim>\<open>str\<close> given to \<^verbatim>\<open>Symbol\<close>, make the constructor
  raise at once, and the exception is a \<^verbatim>\<open>ValueError\<close>: the result is the exception alone,
  with no address and no store, so no node is produced. In particular every text given to
  \<^verbatim>\<open>Number\<close> and every integer or float given to \<^verbatim>\<open>Symbol\<close> is rejected in this way.
\<close>

theorem terminal_payload_rejected:
  "(\<not> isinstance v [int_t, float_t] \<longrightarrow>
      Number_new v h = Inl (ValueError ''Number value must be a numeric type.'')) \<and>
   (\<not> isinstance v [str_t] \<longrightarrow>
      Symbol_new v h = Inl (ValueError ''Symbol value must be a string.'')) \<and>
   Number_new (PStr t) h = Inl (ValueError ''Number value must be a numeric type.'') \<and>
   Symbol_new (PInt i) h = Inl (ValueError ''Symbol value must be a string.'') \<and>
   Symbol_new (PFloat w) h = Inl (ValueError ''Symbol value must be a string.'')"
  by (simp add: Number_new_def Symbol_new_def isinstance_def)

text \<open>The theorem at \<^verbatim>\<open>Number(None)\<close> and \<^verbatim>\<open>Symbol(True)\<close>.\<close>

theorem terminal_payload_rejected_witness:
  "\<not> isinstance PNone [int_t, float_t] \<and> \<not> isinstance (PBool True) [str_t] \<and>
   raises is_ValueError (Number_new PNone []) \<and>
   raises is_ValueError (Symbol_new (PBool True) [])"
  using terminal_payload_rejected [of PNone "[]"] terminal_payload_rejected [of "PBool True" "[]"]
  by (simp add: isinstance_def)

text \<open>
  \<^bold>\<open>C4\<close> as stated asks for an exception of the \<^verbatim>\<open>TypeError\<close> kind. \<^verbatim>\<open>Number('one')\<close> and
  \<^verbatim>\<open>Symbol(1)\<close> raise, and what they raise is not a \<^verbatim>\<open>TypeError\<close>.
\<close>

theorem terminal_rejection_not_TypeError:
  "\<not> raises is_TypeError (Number_new (PStr ''one'') []) \<and>
   \<not> raises is_TypeError (Symbol_new (PInt 1) [])"
  by (simp add: Number_new_def Symbol_new_def isinstance_def)

text \<open>
  \<^bold>\<open>C10\<close>. \<^verbatim>\<open>Number(b)\<close> succeeds for every boolean \<open>b\<close> and stores \<open>b\<close> itself as the
  payload of the new node, because a \<^verbatim>\<open>bool\<close> is an instance of \<^verbatim>\<open>int\<close>. The constructor
  raises exactly when the payload is an instance of neither \<^verbatim>\<open>int\<close> nor \<^verbatim>\<open>float\<close>, that is
  when its type is none of \<^verbatim>\<open>bool\<close>, \<^verbatim>\<open>int\<close>, \<^verbatim>\<open>float\<close>.
\<close>

theorem number_accepts_bool:
  "Number_new (PBool b) h = Inr (length h, h @ [Terminal Number (PBool b)]) \<and>
   isinstance (PBool b) [int_t, float_t] \<and>
   ((\<exists>e. Number_new v h = Inl e) \<longleftrightarrow> \<not> isinstance v [int_t, float_t]) \<and>
   (isinstance v [int_t, float_t] \<longleftrightarrow> type_of v \<in> {bool_t, int_t, float_t})"
  by (cases v) (simp_all add: Number_new_def isinstance_def alloc_def)

text \<open>The theorem at \<^verbatim>\<open>Number(True)\<close> in the empty store, and at the text \<^verbatim>\<open>'1'\<close>.\<close>

theorem number_accepts_bool_witness:
  "Number_new (PBool True) [] = Inr (0, [Terminal Number (PBool True)]) \<and>
   (\<exists>e. Number_new (PStr ''1'') [] = Inl e) \<and> \<not> isinstance (PStr ''1'') [int_t, float_t]"
  using number_accepts_bool [of True "[]" "PStr ''1''"]
  by (simp add: isinstance_def)

section \<open>Construction of operators\<close>

text \<open>
  Every method of the arithmetic protocol calls its operator class with two positional
  arguments, which \<^verbatim>\<open>Expression.__init__(self, operands=())\<close> does not accept: with a node
  or a number on the other side the call raises \<^verbatim>\<open>TypeError\<close>, and no operator node is
  built.
\<close>

lemma binop_raises:
  "isinstance v [int_t, float_t] \<Longrightarrow> binop k a (Raw v) h = Inl TypeError"
  "binop k a (Node b) h = Inl TypeError"
  "isinstance v [int_t, float_t] \<Longrightarrow> rbinop_wrap k a v h = Inl TypeError"
  by (simp_all add: binop_def rbinop_wrap_def coerce_def Number_new_def Operator_new_def alloc_def)

text \<open>
  \<^bold>\<open>C5\<close> says that \<^verbatim>\<open>a.op(k)\<close> and the reversed \<^verbatim>\<open>k.op(a)\<close> yield an operator node with
  the number wrapped. With \<open>a\<close> the symbol \<open>x\<close> at address 0 and \<open>k = 5\<close>, each of the ten
  methods raises \<^verbatim>\<open>TypeError\<close> instead.
\<close>

theorem arithmetic_construction_raises:
  "Expression_add 0 (Raw (PInt 5)) [Terminal Symbol (PStr ''x'')] = Inl TypeError \<and>
   Expression_radd 0 (PInt 5) [Terminal Symbol (PStr ''x'')] = Inl TypeError \<and>
   Expression_sub 0 (Raw (PInt 5)) [Terminal Symbol (PStr ''x'')] = Inl TypeError \<and>
   Expression_rsub 0 (PInt 5) [Terminal Symbol (PStr ''x'')] = Inl TypeError \<and>
   Expression_mul 0 (Raw (PInt 5)) [Terminal Symbol (PStr ''x'')] = Inl TypeError \<and>
   Expression_rmul 0 (PInt 5) [Terminal Symbol (PStr ''x'')] = Inl TypeError \<and>
   Expression_truediv 0 (Raw (PInt 5)) [Terminal Symbol (PStr ''x'')] = Inl TypeError \<and>
   Expression_rtruediv 0 (PInt 5) [Terminal Symbol (PStr ''x'')] = Inl TypeError \<and>
   Expression_pow 0 (Raw (PInt 5)) [Terminal Symbol (PStr ''x'')] = Inl TypeError \<and>
   Expression_rpow 0 (PInt 5) [Terminal Symbol (PStr ''x'')] = Inl TypeError"
  by (simp add: Expression_add_def Expression_radd_def Expression_sub_def Expression_rsub_def
      Expression_mul_def Expression_rmul_def Expression_truediv_def Expression_rtruediv_def
      Expression_pow_def Expression_rpow_def binop_raises isinstance_def)

text \<open>
  A call with the operands in one tuple is accepted. These calls build the store of the
  sharing example.
\<close>

lemma heap_shared_built:
  "Number_new (PInt 5) [] = Inr (0, take 1 heap_shared) \<and>
   Number_new (PInt 1) (take 1 heap_shared) = Inr (1, take 2 heap_shared) \<and>
   Operator_new Add [ATuple [0, 1]] (take 2 heap_shared) = Inr (2, take 3 heap_shared) \<and>
   Operator_new Mul [ATuple [2, 2]] (take 3 heap_shared) = Inr (3, heap_shared)"
  by (simp add: heap_shared_def Number_new_def Operator_new_def alloc_def isinstance_def)

section \<open>Rendering\<close>

text \<open>
  \<^bold>\<open>C6\<close>. When the two operands of an operator node render, within the depth the
  interpreter allows, as \<open>ls\<close> and \<open>rs\<close>, the node renders as the left text, a space, the
  operator's symbol, a space and the right text, where an operand's text is put in
  parentheses if and only if the operand's precedence is strictly lower than the
  operator's. A terminal renders as \<^verbatim>\<open>str\<close> of its payload, and its precedence is lower
  than no operator's, so it is never put in parentheses.
\<close>

theorem str_operator_rule:
  "(deref h r = Some (Operator k [left, right]) \<and> deref h left = Some lo \<and>
    deref h right = Some ro \<and> str_expr float_str depth h left = Inr ls \<and>
    str_expr float_str depth h right = Inr rs \<longrightarrow>
      str_expr float_str (Suc depth) h r =
        Inr ((if precedence lo < precedence (Operator k [left, right]) then ''('' @ ls @ '')'' else ls)
             @ '' '' @ symbol k @ '' '' @
             (if precedence ro < precedence (Operator k [left, right]) then ''('' @ rs @ '')'' else rs))) \<and>
   (deref h r = Some (Terminal c v) \<longrightarrow>
      str_expr float_str (Suc depth) h r = Inr (py_str float_str v) \<and>
      \<not> precedence (Terminal c v) < precedence (Operator k ops))"
  by (simp add: parenthesise_def)

text \<open>
  The theorem at the product \<open>(x + y) * z\<close> of the rendering examples, whose left operand is
  a sum and is parenthesised, and at its right operand, the symbol \<open>z\<close>.
\<close>

theorem str_operator_rule_witness:
  "deref heap_render 4 = Some (Operator Mul [3, 2]) \<and>
   deref heap_render 3 = Some (Operator Add [0, 1]) \<and>
   deref heap_render 2 = Some (Terminal Symbol (PStr ''z'')) \<and>
   str_expr no_float_str 2 heap_render 3 = Inr ''x + y'' \<and>
   str_expr no_float_str 2 heap_render 2 = Inr ''z'' \<and>
   str_expr no_float_str 3 heap_render 4 = Inr ''(x + y) * z'' \<and>
   str_expr no_float_str 1 heap_render 2 = Inr ''z''"
proof -
  have a: "deref heap_render 4 = Some (Operator Mul [3, 2])"
    "deref heap_render 3 = Some (Operator Add [0, 1])"
    "deref heap_render 2 = Some (Terminal Symbol (PStr ''z''))"
    by (simp_all add: heap_render_def deref_def)
  have b: "str_expr no_float_str 2 heap_render 3 = Inr ''x + y''"
    "str_expr no_float_str 2 heap_render 2 = Inr ''z''"
    by code_simp+
  show ?thesis
    using str_operator_rule [where h = heap_render and r = 4 and k = Mul and left = 3
        and right = 2 and lo = "Operator Add [0, 1]" and ro = "Terminal Symbol (PStr ''z'')"
        and float_str = no_float_str and depth = 2 and ls = "''x + y''" and rs = "''z''"]
      str_operator_rule [where h = heap_render and r = 2 and c = Symbol and v = "PStr ''z''"
        and float_str = no_float_str and depth = 0 and k = Mul and ops = "[3, 2]"]
      a b
    by (simp add: numeral_3_eq_3 numeral_2_eq_2 one_enat_def numeral_eq_enat)
qed

text \<open>
  \<^bold>\<open>C7\<close>, as the code has it. The node \<open>(x + y) * z\<close> renders as \<^verbatim>\<open>(x + y) * z\<close>, the node
  \<open>x * y + z\<close> as \<^verbatim>\<open>x * y + z\<close>, and both \<^verbatim>\<open>Pow(x, Pow(y, z))\<close> and \<^verbatim>\<open>Pow(Pow(x, y), z)\<close> as
  \<^verbatim>\<open>x ^ y ^ z\<close>: an operand of the same precedence as its operator is not parenthesised, on
  either side.
\<close>

theorem render_examples:
  "str_expr float_str 3 heap_render 4 = Inr ''(x + y) * z'' \<and>
   str_expr float_str 3 heap_render 6 = Inr ''x * y + z'' \<and>
   str_expr float_str 3 heap_render 8 = Inr ''x ^ y ^ z'' \<and>
   str_expr float_str 3 heap_render 10 = Inr ''x ^ y ^ z''"
  by code_simp

text \<open>
  \<^bold>\<open>C7\<close> as stated has \<^verbatim>\<open>Pow(Pow(x, y), z)\<close> render as \<^verbatim>\<open>(x ^ y) ^ z\<close>. It does not.
\<close>

theorem render_left_power_unparenthesised:
  "str_expr no_float_str 3 heap_render 10 \<noteq> Inr ''(x ^ y) ^ z''"
  by code_simp

section \<open>Visiting\<close>

text \<open>
  On the graph of \<open>2 + 3 * 4\<close>, as the calls \<^verbatim>\<open>Add((Number(2), Mul((Number(3), Number(4)))))\<close>
  build it, the traversal with the evaluating function returns 14, whatever the caller's
  state, and leaves the state as it was.
\<close>

lemma evaluate_sum:
  "postvisitor heap_sum 4 (evaluate heap_sum) Map.empty s = Some (Inr 14, s)"
  by (simp add: postvisitor_def visit_loop.simps heap_sum_def deref_def evaluate_def)

text \<open>
  \<^bold>\<open>C8\<close> has the expression \<^verbatim>\<open>Number(2) + Number(3) * Number(4)\<close> visited and 14 returned.
  In the code the expression is never built: the three literals are constructed, at
  addresses 0, 1 and 2, and then the product \<^verbatim>\<open>Number(3) * Number(4)\<close>, which calls
  \<^verbatim>\<open>Mul(self, other)\<close>, raises \<^verbatim>\<open>TypeError\<close>, before any visit.
\<close>

theorem sum_construction_raises:
  "Number_new (PInt 2) [] = Inr (0, [Terminal Number (PInt 2)]) \<and>
   Number_new (PInt 3) [Terminal Number (PInt 2)]
     = Inr (1, [Terminal Number (PInt 2), Terminal Number (PInt 3)]) \<and>
   Number_new (PInt 4) [Terminal Number (PInt 2), Terminal Number (PInt 3)]
     = Inr (2, [Terminal Number (PInt 2), Terminal Number (PInt 3), Terminal Number (PInt 4)]) \<and>
   Expression_mul 1 (Node 2)
     [Terminal Number (PInt 2), Terminal Number (PInt 3), Terminal Number (PInt 4)]
     = Inl TypeError"
  by (simp add: Number_new_def isinstance_def alloc_def Expression_mul_def binop_raises)

lemma visit_count_distinct: "distinct (map fst cs) \<Longrightarrow> visit_count n cs \<le> 1"
  unfolding visit_count_def
proof (induction cs)
  case Nil
  then show ?case by simp
next
  case (Cons c cs)
  show ?case
  proof (cases "fst c = n")
    case True
    have "fst c' \<noteq> n" if "c' \<in> set cs" for c'
      using Cons.prems True that by (metis distinct.simps(2) image_eqI list.simps(9) set_map)
    then have "filter (\<lambda>c'. fst c' = n) cs = []" by (simp add: filter_empty_conv)
    with True show ?thesis by simp
  next
    case False
    with Cons show ?thesis by simp
  qed
qed

subsection \<open>Deep chains\<close>

lemma length_chain_heap: "length (chain_heap c n) = 2 * n + 1"
  by (induction n) simp_all

lemma chain_heap_nth:
  "m < 2 * n + 1 \<Longrightarrow> chain_heap c n ! m =
     (if m = 0 then Terminal Number (PInt c)
      else if odd m then Terminal Number (PInt 1)
      else Operator Add [m - 1, m - 2])"
proof (induction n)
  case 0
  then show ?case by simp
next
  case (Suc n)
  show ?case
  proof (cases "m < 2 * n + 1")
    case True
    have "chain_heap c (Suc n) ! m = chain_heap c n ! m"
      using True by (simp add: nth_append length_chain_heap)
    with Suc.IH[OF True] show ?thesis by (simp only:)
  next
    case False
    with Suc.prems have "m = 2 * n + 1 \<or> m = 2 * n + 2" by arith
    then show ?thesis by (auto simp: nth_append length_chain_heap)
  qed
qed



lemma chain_heap_operands:
  assumes "m < 2 * n + 1" "k \<in> set (operands (chain_heap c n ! m))"
  shows "k < m"
proof -
  from assms(2) have "m \<noteq> 0" "even m" "k = m - 1 \<or> k = m - 2"
    unfolding chain_heap_nth[OF assms(1)] by (auto split: if_splits)
  then show ?thesis by (cases m) auto
qed

lemma dag_chain_heap: "dag (chain_heap c n) (\<lambda>m. m)"
  unfolding dag_def list_all_iff
proof (intro ballI)
  fix m k
  assume m: "m \<in> set [0..<length (chain_heap c n)]"
    and k: "k \<in> set (operands (chain_heap c n ! m))"
  from m have m': "m < 2 * n + 1" by (auto simp: length_chain_heap)
  from chain_heap_operands[OF m' k] m'
  show "k < length (chain_heap c n) \<and> k < m"
    by (simp add: length_chain_heap)
qed

lemma dag_closed:
  "dag h rank \<Longrightarrow> \<forall>n<length h. \<forall>c\<in>set (operands (h ! n)). c < length h"
  by (auto simp: dag_def list_all_iff)

lemma evaluate_chain:
  assumes m: "m < length (chain_heap c n)"
    and args: "list_all2 (\<lambda>k v. v = chain_value c k) (operands (chain_heap c n ! m)) args"
  shows "\<exists>v. evaluate (chain_heap c n) m args kw s = (Inr v, s) \<and> v = chain_value c m"
proof -
  from m have m': "m < 2 * n + 1" by (simp add: length_chain_heap)
  have d: "deref (chain_heap c n) m = Some (chain_heap c n ! m)" using m by (simp add: deref_def)
  note nth = chain_heap_nth[OF m', of c]
  consider "m = 0" | "odd m" | "m \<noteq> 0" "even m" by blast
  then show ?thesis
  proof cases
    case 1
    then have "chain_heap c n ! m = Terminal Number (PInt c)" using nth by simp
    with 1 d show ?thesis by (simp add: evaluate_def chain_value_def)
  next
    case 2
    then have "m \<noteq> 0" by (cases m) auto
    with 2 have "chain_heap c n ! m = Terminal Number (PInt 1)" using nth by simp
    with 2 \<open>m \<noteq> 0\<close> d show ?thesis by (simp add: evaluate_def chain_value_def)
  next
    case 3
    then have ob: "chain_heap c n ! m = Operator Add [m - 1, m - 2]" using nth by simp
    from 3 obtain i where i: "m = 2 * i" by (auto elim!: evenE)
    with 3 have "i \<noteq> 0" by auto
    then obtain j where "i = Suc j" by (cases i) auto
    with i have j: "m = 2 * Suc j" by simp
    from args have a: "args = [chain_value c (m - 1), chain_value c (m - 2)]"
      unfolding ob by (auto simp: list_all2_Cons1)
    have v1: "chain_value c (m - 1) = 1" using j by (simp add: chain_value_def)
    have v2: "chain_value c (m - 2) = of_nat j + of_int c"
      using j by (cases j) (simp_all add: chain_value_def)
    have v: "chain_value c m = of_nat (Suc j) + of_int c" using j by (simp add: chain_value_def)
    show ?thesis
      unfolding evaluate_def d ob a v1 v2 v by simp
  qed
qed

text \<open>
  For every \<open>n\<close>, visiting the right-leaning chain of \<open>n\<close> nested \<^verbatim>\<open>Add\<close> nodes, each with the
  literal 1 as left operand, over an innermost literal \<open>c\<close>, ends, raises nothing, leaves
  the caller's state as it was, and returns \<open>n + c\<close>.
\<close>

lemma chain_returns:
  "postvisitor (chain_heap c n) (chain_root n) (evaluate (chain_heap c n)) symbol_map s
     = Some (Inr (of_nat n + of_int c), s)"
proof -
  let ?h = "chain_heap c n"
  have root: "chain_root n < length ?h" by (simp add: chain_root_def length_chain_heap)
  from postvisitor_returns[OF dag_chain_heap root, of "evaluate ?h" symbol_map s]
  obtain res where res: "postvisitor ?h (chain_root n) (evaluate ?h) symbol_map s = Some res"
    by blast
  then obtain r s1 where loop:
    "visit_loop ?h (evaluate ?h) symbol_map Map.empty [chain_root n] [] s = Some (r, s1)"
    by (auto simp: postvisitor_def split: option.splits)
  have step: "\<exists>v. evaluate ?h m args symbol_map s = (Inr v, s) \<and> v = chain_value c m"
    if "m < length ?h" "list_all2 (\<lambda>k v. v = chain_value c k) (operands (?h ! m)) args"
    for m args
    using evaluate_chain[OF that] .
  from visit_loop_values[OF loop dag_closed[OF dag_chain_heap] root,
      where R = "\<lambda>k v. v = chain_value c k", OF step]
  obtain V where V: "r = Inr V" "V (chain_root n) = Some (chain_value c (chain_root n))" "s1 = s"
    by blast
  have "chain_value c (chain_root n) = of_nat n + of_int c"
    by (cases n) (simp_all add: chain_value_def chain_root_def)
  with V loop show ?thesis by (simp add: postvisitor_def)
qed

text \<open>
  \<^bold>\<open>C3\<close>, as the code has it. The traversal keeps its pending nodes on the explicit stack
  of the loop; the loop is the only repetition, and neither \<^verbatim>\<open>postvisitor\<close> nor the
  evaluating function calls itself. For every \<open>n\<close>, visiting the right-leaning chain of \<open>n\<close>
  nested \<^verbatim>\<open>Add\<close> nodes whose leaves are all the literal 1 ends, raises nothing, leaves the
  caller's state as it was, and returns \<open>n + 1\<close>, the number of its leaves.
\<close>

theorem chain_of_ones_returns:
  "postvisitor (chain_heap 1 n) (chain_root n) (evaluate (chain_heap 1 n)) symbol_map s
     = Some (Inr (of_nat n + 1), s)"
  using chain_returns [of 1 n symbol_map s] by simp

text \<open>
  \<^bold>\<open>C3\<close> as stated has the chain of \<open>N\<close> nested \<^verbatim>\<open>Add\<close> nodes over the literal 1 return \<open>N\<close>.
  The chain of one \<^verbatim>\<open>Add\<close> node, \<^verbatim>\<open>Add((Number(1), Number(1)))\<close>, returns 2, not 1.
\<close>

theorem chain_of_ones_not_N:
  "chain_heap 1 1 = [Terminal Number (PInt 1), Terminal Number (PInt 1), Operator Add [1, 0]] \<and>
   chain_root 1 = 2 \<and>
   postvisitor (chain_heap 1 1) (chain_root 1) (evaluate (chain_heap 1 1)) Map.empty ()
     = Some (Inr 2, ()) \<and>
   postvisitor (chain_heap 1 1) (chain_root 1) (evaluate (chain_heap 1 1)) Map.empty ()
     \<noteq> Some (Inr 1, ())"
  by (simp add: chain_root_def postvisitor_def visit_loop.simps deref_def evaluate_def)

subsection \<open>The order and the number of the calls\<close>

text \<open>The traversals of the example graphs, with every invocation recorded.\<close>

lemma postorder_log_kwargs:
  assumes "postorder_log h kw cs" "(n, args, k, out) \<in> set cs"
  shows "k = kw"
proof -
  from assms(2) obtain i where "i < length cs" "cs ! i = (n, args, k, out)"
    by (auto simp: in_set_conv_nth)
  with assms(1) show ?thesis by (auto simp: postorder_log_def)
qed

lemma run_shared:
  "postvisitor heap_shared 3 (recorded (evaluate heap_shared)) Map.empty ((), []) =
     Some (Inr 36, ((),
       [(0, [], Map.empty, Inr 5), (1, [], Map.empty, Inr 1),
        (2, [5, 1], Map.empty, Inr 6), (3, [6, 6], Map.empty, Inr 36)]))"
  by (simp add: postvisitor_def visit_loop.simps heap_shared_def deref_def evaluate_def
      recorded_def)

lemma run_unshared:
  "postvisitor heap_unshared 6 (recorded (evaluate heap_unshared)) Map.empty ((), []) =
     Some (Inr 36, ((),
       [(0, [], Map.empty, Inr 5), (1, [], Map.empty, Inr 1), (2, [5, 1], Map.empty, Inr 6),
        (3, [], Map.empty, Inr 5), (4, [], Map.empty, Inr 1), (5, [5, 1], Map.empty, Inr 6),
        (6, [6, 6], Map.empty, Inr 36)]))"
  by (simp add: postvisitor_def visit_loop.simps heap_unshared_def deref_def evaluate_def
      recorded_def)

lemma run_symbol:
  "postvisitor heap_symbol 2 (recorded (evaluate heap_symbol)) Map.empty ((), []) =
     Some (Inl (KeyError ''x''), ((), [(0, [], Map.empty, Inl (KeyError ''x''))]))"
  by (simp add: postvisitor_def visit_loop.simps heap_symbol_def deref_def evaluate_def
      recorded_def)

lemma dag_examples:
  "dag heap_shared (\<lambda>m. m)" "dag heap_unshared (\<lambda>m. m)" "dag heap_symbol (\<lambda>m. m)"
  by (simp_all add: dag_def heap_shared_def heap_unshared_def heap_symbol_def upt_rec)

text \<open>
  Let the combining function be wrapped so that its invocations are recorded. Whenever a
  traversal returns, with a value or with an exception, no node occurs twice among the
  recorded invocations, so the counter of every node is at most one, on every graph, with
  shared nodes or without; and recording changes neither the outcome nor the caller's
  state. On a closed acyclic graph the traversal does return. On the product whose two
  operands are the one sum of 5 and 1 (address 2), as the calls with one tuple build it,
  the function is invoked on 5, on 1, on the sum and on the product, once each, and the
  result is 36. On the product of two sums that are equal in structure and distinct as
  objects (addresses 2 and 5), each of the two sums is visited, once.
\<close>

lemma visits_at_most_once:
  "(postvisitor h expr (recorded fn) kwargs (s, []) = Some (out, (s1, cs)) \<longrightarrow>
      distinct (map fst cs) \<and> (\<forall>n. visit_count n cs \<le> 1) \<and>
      postvisitor h expr fn kwargs s = Some (out, s1)) \<and>
   (dag h rank \<and> expr < length h \<longrightarrow>
      (\<exists>out s1 cs. postvisitor h expr (recorded fn) kwargs (s, []) = Some (out, (s1, cs)))) \<and>
   (\<exists>cs. postvisitor heap_shared 3 (recorded (evaluate heap_shared)) Map.empty ((), [])
            = Some (Inr 36, ((), cs)) \<and>
         map fst cs = [0, 1, 2, 3] \<and> visit_count 2 cs = 1) \<and>
   (\<exists>cs. postvisitor heap_unshared 6 (recorded (evaluate heap_unshared)) Map.empty ((), [])
            = Some (Inr 36, ((), cs)) \<and>
         map fst cs = [0, 1, 2, 3, 4, 5, 6] \<and> visit_count 2 cs = 1 \<and> visit_count 5 cs = 1)"
proof (intro conjI impI)
  assume run: "postvisitor h expr (recorded fn) kwargs (s, []) = Some (out, (s1, cs))"
  from recorded_postvisitor(1)[OF run] show "distinct (map fst cs)" .
  then show "\<forall>n. visit_count n cs \<le> 1" by (intro allI visit_count_distinct)
  from recorded_plain[OF run] show "postvisitor h expr fn kwargs s = Some (out, s1)" .
next
  assume a: "dag h rank \<and> expr < length h"
  from postvisitor_returns[OF conjunct1[OF a] conjunct2[OF a], of "recorded fn" kwargs "(s, [])"]
  obtain res where res: "postvisitor h expr (recorded fn) kwargs (s, []) = Some res" ..
  obtain out s1 cs where "res = (out, (s1, cs))" by (cases res) auto
  with res show "\<exists>out s1 cs. postvisitor h expr (recorded fn) kwargs (s, []) = Some (out, (s1, cs))"
    by blast
next
  show "\<exists>cs. postvisitor heap_shared 3 (recorded (evaluate heap_shared)) Map.empty ((), [])
            = Some (Inr 36, ((), cs)) \<and>
         map fst cs = [0, 1, 2, 3] \<and> visit_count 2 cs = 1"
    unfolding run_shared by (simp add: visit_count_def)
next
  show "\<exists>cs. postvisitor heap_unshared 6 (recorded (evaluate heap_unshared)) Map.empty ((), [])
            = Some (Inr 36, ((), cs)) \<and>
         map fst cs = [0, 1, 2, 3, 4, 5, 6] \<and> visit_count 2 cs = 1 \<and> visit_count 5 cs = 1"
    unfolding run_unshared by (simp add: visit_count_def)
qed

text \<open>
  \<^bold>\<open>C1\<close> has the shared node built as \<^verbatim>\<open>s = Number(5) + Number(1)\<close> and the root as
  \<^verbatim>\<open>Mul(s, s)\<close>, then visited with the result 36 and one invocation for \<open>s\<close>. In the code
  neither is built: the two literals are constructed, at addresses 0 and 1, and then the
  sum, which calls \<^verbatim>\<open>Add(self, other)\<close>, raises \<^verbatim>\<open>TypeError\<close>; and with the sum at address
  2, however it came to be there, the call \<^verbatim>\<open>Mul(s, s)\<close> raises \<^verbatim>\<open>TypeError\<close> as well.
\<close>

theorem shared_sum_construction_raises:
  "Number_new (PInt 5) [] = Inr (0, [Terminal Number (PInt 5)]) \<and>
   Number_new (PInt 1) [Terminal Number (PInt 5)]
     = Inr (1, [Terminal Number (PInt 5), Terminal Number (PInt 1)]) \<and>
   Expression_add 0 (Node 1) [Terminal Number (PInt 5), Terminal Number (PInt 1)]
     = Inl TypeError \<and>
   Operator_new Mul [AExpr 2, AExpr 2]
     [Terminal Number (PInt 5), Terminal Number (PInt 1), Operator Add [0, 1]] = Inl TypeError"
  by (simp add: Number_new_def isinstance_def alloc_def Expression_add_def binop_raises
      Operator_new_def)

text \<open>
  \<^bold>\<open>C2\<close>. On every closed acyclic graph, for every combining function, keyword arguments
  and state of the caller, the traversal returns, and its record is in postorder: every
  invocation carries the keyword arguments of the traversal unchanged and, as positional
  arguments, the results that earlier invocations produced for the operands of its node,
  in the order of the operand tuple. No node is invoked twice, so every further occurrence
  of a shared node receives the one recorded result. A value that the traversal returns is
  the result of the invocation on the root; an exception that it returns is the one the
  last invocation raised.
\<close>

theorem postvisitor_postorder:
  assumes "dag h rank" and "expr < length h"
  shows "\<exists>out s1 cs.
     postvisitor h expr (recorded fn) kwargs (s, []) = Some (out, (s1, cs)) \<and>
     postvisitor h expr fn kwargs s = Some (out, s1) \<and>
     postorder_log h kwargs cs \<and> distinct (map fst cs) \<and>
     (\<forall>v. out = Inr v \<longrightarrow> memo_of cs expr = Some v \<and> (\<exists>args. (expr, args, kwargs, Inr v) \<in> set cs)) \<and>
     (\<forall>e. out = Inl e \<longrightarrow> cs \<noteq> [] \<and> outcome (last cs) = Inl e)"
proof -
  from postvisitor_returns[OF assms, of "recorded fn" kwargs "(s, [])"]
  obtain res where res: "postvisitor h expr (recorded fn) kwargs (s, []) = Some res" ..
  obtain out s1 cs where "res = (out, (s1, cs))" by (cases res) auto
  with res have run:
    "postvisitor h expr (recorded fn) kwargs (s, []) = Some (out, (s1, cs))"
    by simp
  note facts = recorded_postvisitor[OF run]
  have root: "\<exists>args. (expr, args, kwargs, Inr v) \<in> set cs" if "out = Inr v" for v
  proof -
    from facts(4) that have "memo_of cs expr = Some v" by blast
    from memo_of_SomeD[OF this] obtain args k where "(expr, args, k, Inr v) \<in> set cs" by blast
    with postorder_log_kwargs[OF facts(2) this] show ?thesis by blast
  qed
  have err: "\<forall>e. out = Inl e \<longrightarrow> cs \<noteq> [] \<and> outcome (last cs) = Inl e"
    using facts(5) dag_closed[OF assms(1)] assms(2) by blast
  show ?thesis
    using run recorded_plain[OF run] facts(1,2,4) root err by blast
qed

text \<open>The theorem at the graph with the shared sum, ranked by address.\<close>

theorem postvisitor_postorder_witness:
  "dag heap_shared (\<lambda>m. m) \<and> 3 < length heap_shared \<and>
   (\<exists>out s1 cs.
     postvisitor heap_shared 3 (recorded (evaluate heap_shared)) Map.empty ((), [])
       = Some (out, (s1, cs)) \<and>
     postvisitor heap_shared 3 (evaluate heap_shared) Map.empty () = Some (out, s1) \<and>
     postorder_log heap_shared Map.empty cs)"
proof -
  have d: "dag heap_shared (\<lambda>m. m)" "3 < length heap_shared"
    using dag_examples(1) by (simp_all add: heap_shared_def)
  from postvisitor_postorder [OF d, of "evaluate heap_shared" Map.empty "()"] d
  show ?thesis by blast
qed

text \<open>
  \<^bold>\<open>C9\<close>. At the point of the loop where the combining function is called on a node and
  raises, the traversal ends at once, whatever is left on the stack: what it hands to its
  caller is that exception, with the caller's state as the function left it, and no
  dictionary. Over a whole traversal with recorded invocations: an invocation that raised
  is the last one, and the traversal returned its exception. On a closed acyclic graph a
  traversal always returns. Evaluating \<open>x + 1\<close> with no binding for \<open>x\<close> returns the
  \<^verbatim>\<open>KeyError\<close> of the lookup, not a value.
\<close>

theorem fn_error_propagates:
  "(V node = None \<and> deref h node = Some ob \<and> list_all (\<lambda>c. V c \<noteq> None) (operands ob) \<and>
    fn node (map (\<lambda>c. the (V c)) (operands ob)) kwargs s = (Inl e, s') \<longrightarrow>
      visit_loop h fn kwargs V (stack @ [node]) result_stack s = Some (Inl e, s')) \<and>
   (postvisitor h expr (recorded fn) kwargs (s, []) = Some (out, (s1, cs)) \<longrightarrow>
      postvisitor h expr fn kwargs s = Some (out, s1) \<and>
      (\<forall>i<length cs. \<forall>e. outcome (cs ! i) = Inl e \<longrightarrow> Suc i = length cs \<and> out = Inl e)) \<and>
   (dag h rank \<and> expr < length h \<longrightarrow> (\<exists>res. postvisitor h expr fn kwargs s = Some res)) \<and>
   postvisitor heap_symbol 2 (evaluate heap_symbol) Map.empty s0 = Some (Inl (KeyError ''x''), s0)"
proof (intro conjI impI)
  assume "V node = None \<and> deref h node = Some ob \<and> list_all (\<lambda>c. V c \<noteq> None) (operands ob) \<and>
    fn node (map (\<lambda>c. the (V c)) (operands ob)) kwargs s = (Inl e, s')"
  then show "visit_loop h fn kwargs V (stack @ [node]) result_stack s = Some (Inl e, s')"
    by (simp add: visit_loop_pop)
next
  assume run: "postvisitor h expr (recorded fn) kwargs (s, []) = Some (out, (s1, cs))"
  from recorded_plain[OF run] show "postvisitor h expr fn kwargs s = Some (out, s1)" .
  from recorded_postvisitor(3)[OF run]
  show "\<forall>i<length cs. \<forall>e. outcome (cs ! i) = Inl e \<longrightarrow> Suc i = length cs \<and> out = Inl e" .
next
  assume a: "dag h rank \<and> expr < length h"
  from postvisitor_returns[OF conjunct1[OF a] conjunct2[OF a], of fn kwargs s]
  show "\<exists>res. postvisitor h expr fn kwargs s = Some res" .
next
  show "postvisitor heap_symbol 2 (evaluate heap_symbol) Map.empty s0
      = Some (Inl (KeyError ''x''), s0)"
    by (simp add: postvisitor_def visit_loop.simps heap_symbol_def deref_def evaluate_def)
qed

text \<open>
  The theorem at the traversal of \<open>x + 1\<close>, at the moment the symbol \<open>x\<close> (address 0) is on top
  of the stack above the sum (address 2), and over the whole traversal.
\<close>

theorem fn_error_propagates_witness:
  "Map.empty 0 = (None :: rat option) \<and>
   deref heap_symbol 0 = Some (Terminal Symbol (PStr ''x'')) \<and>
   evaluate heap_symbol 0 [] Map.empty () = (Inl (KeyError ''x''), ()) \<and>
   visit_loop heap_symbol (evaluate heap_symbol) Map.empty Map.empty ([2] @ [0]) [] ()
     = Some (Inl (KeyError ''x''), ()) \<and>
   postvisitor heap_symbol 2 (recorded (evaluate heap_symbol)) Map.empty ((), [])
     = Some (Inl (KeyError ''x''), ((), [(0, [], Map.empty, Inl (KeyError ''x''))])) \<and>
   postvisitor heap_symbol 2 (evaluate heap_symbol) Map.empty () = Some (Inl (KeyError ''x''), ())"
proof -
  have a: "deref heap_symbol 0 = Some (Terminal Symbol (PStr ''x''))"
    "evaluate heap_symbol 0 [] Map.empty () = (Inl (KeyError ''x''), ())"
    by (simp_all add: heap_symbol_def deref_def evaluate_def)
  from fn_error_propagates [where V = "Map.empty :: ref \<rightharpoonup> rat" and node = 0
      and h = heap_symbol and ob = "Terminal Symbol (PStr ''x'')"
      and fn = "evaluate heap_symbol" and kwargs = Map.empty and s = "()" and e = "KeyError ''x''"
      and s' = "()" and stack = "[2]" and result_stack = "[]" and expr = 2
      and out = "Inl (KeyError ''x'')" and ?s1.0 = "()"
      and cs = "[(0, [], Map.empty, Inl (KeyError ''x''))]" and rank = "\<lambda>m. m"
      and ?s0.0 = "()"] a run_symbol
  show ?thesis by simp
qed

end
